theory Spec2Isabelle
  imports Complex_Main "HOL-Library.Word"
begin

section \<open>A circuit breaker with retries and exponential backoff (main.go)\<close>

text \<open>
  The program is one HTTP handler that calls an external API through a circuit breaker, up to
  five times, sleeping a jittered exponential backoff after every failed attempt, and counts
  outcomes in a Prometheus counter vector. Everything the handler touches outside its own
  variables is gathered in the record \<open>world\<close> and passed explicitly: the clock, the answers
  of the external API, the random source, the counters, standard output and the order in which
  the handler slept and called.
\<close>

subsection \<open>float64 arithmetic\<close>

text \<open>
  \<open>exponentialBackoff\<close> computes in float64. A float64 is modelled by the rational it denotes
  (or an infinity, or NaN); an operation computes the exact result and rounds it to the nearest
  value with 53 significant bits, ties to even, with the smallest exponent of the format
  (spacing \<open>2^-1074\<close>) and overflow to infinity at \<open>2^1024\<close>.
\<close>

datatype float64 = Fin rat | PInf | NInf | NaN

definition pow2 :: "int \<Rightarrow> rat" where
  "pow2 e = (if 0 \<le> e then 2 ^ nat e else 1 / 2 ^ nat (- e))"

text \<open>Rounding a rational to the nearest integer, ties to the even one.\<close>

definition rne :: "rat \<Rightarrow> int" where
  "rne q = (let f = \<lfloor>q\<rfloor>; d = q - of_int f in
     if d < 1 / 2 then f else if 1 / 2 < d then f + 1
     else if even f then f else f + 1)"

text \<open>The number of binary digits of a positive integer.\<close>

function blen :: "int \<Rightarrow> int" where
  "blen n = (if n \<le> 0 then 0 else 1 + blen (n div 2))"
  by pat_completeness auto
termination
  by (relation "measure nat") auto

declare blen.simps [simp del]

text \<open>The binary exponent of a positive rational: \<open>2^(ilog2 x) \<le> x < 2^(ilog2 x + 1)\<close>.\<close>

definition ilog2 :: "rat \<Rightarrow> int" where
  "ilog2 x = (if 1 \<le> x then blen \<lfloor>x\<rfloor> - 1 else - blen (\<lceil>1 / x\<rceil> - 1))"

definition round_sig :: "rat \<Rightarrow> rat" where
  "round_sig x = (if x = 0 then 0 else
     let a = \<bar>x\<bar>; u = pow2 (max (ilog2 a) (- 1022) - 52)
     in sgn x * (of_int (rne (a / u)) * u))"

definition round64 :: "rat \<Rightarrow> float64" where
  "round64 x = (let y = round_sig x in
     if pow2 1024 \<le> \<bar>y\<bar> then (if 0 < y then PInf else NInf) else Fin y)"

text \<open>
  \<open>float64(a)\<close> for an integer \<open>a\<close>. The converted value is again an integer (an int64 never
  overflows a float64), and it is kept as that integer.
\<close>

definition float64_int :: "int \<Rightarrow> int" where
  "float64_int a = \<lfloor>round_sig (of_int a)\<rfloor>"

text \<open>
  \<open>math.Pow(2, y)\<close> at an integral \<open>y\<close>, the only arguments it gets here: the power of two,
  exact while it is a float64, \<open>+Inf\<close> above the range and \<open>0\<close> below it.
\<close>

definition math_Pow2 :: "int \<Rightarrow> float64" where
  "math_Pow2 y = (if 1024 \<le> y then PInf else if y < - 1074 then Fin 0 else Fin (pow2 y))"

fun fsign :: "float64 \<Rightarrow> int" where
  "fsign (Fin x) = (if x = 0 then 0 else if 0 < x then 1 else - 1)"
| "fsign PInf = 1"
| "fsign NInf = - 1"
| "fsign NaN = 0"

fun fmul :: "float64 \<Rightarrow> float64 \<Rightarrow> float64" where
  "fmul (Fin x) (Fin y) = round64 (x * y)"
| "fmul a b = (if a = NaN \<or> b = NaN \<or> fsign a * fsign b = 0 then NaN
               else if 0 < fsign a * fsign b then PInf else NInf)"

text \<open>The comparison \<open>a > b\<close>; every comparison with NaN is false.\<close>

fun fgt :: "float64 \<Rightarrow> float64 \<Rightarrow> bool" where
  "fgt NaN b = False"
| "fgt a NaN = False"
| "fgt (Fin x) (Fin y) = (y < x)"
| "fgt PInf b = (b \<noteq> PInf)"
| "fgt a PInf = False"
| "fgt a NInf = (a \<noteq> NInf)"
| "fgt NInf b = False"

text \<open>
  \<open>time.Duration(f)\<close>: the conversion of a float64 to int64 drops the fraction. Out of the
  range of int64 (and for NaN) Go leaves the value to the implementation; the value written
  here is the one of amd64.
\<close>

definition Duration_of :: "float64 \<Rightarrow> int" where
  "Duration_of f = (case f of
       Fin x \<Rightarrow> (let t = (if 0 \<le> x then \<lfloor>x\<rfloor> else \<lceil>x\<rceil>) in
                  if - (2 ^ 63) \<le> t \<and> t < 2 ^ 63 then t else - (2 ^ 63))
     | PInf \<Rightarrow> - (2 ^ 63) | NInf \<Rightarrow> - (2 ^ 63) | NaN \<Rightarrow> - (2 ^ 63))"

subsection \<open>The world outside the handler\<close>

text \<open>\<open>time.Second\<close>: a \<open>time.Duration\<close> counts nanoseconds.\<close>

definition Second :: int where
  "Second = 1000000000"

datatype error = CircuitOpen | TooManyRequests | OperationFailure string

text \<open>What the external API answers to one call, and how long the call takes (nanoseconds).\<close>

record reply =
  status :: int
  failure :: "string option"
  latency :: nat

datatype event = EvExecute | EvCall | EvSleep int

record world =
  now :: int
  api :: "nat \<Rightarrow> reply"
  calls :: nat
  draws :: "nat \<Rightarrow> nat"
  drawn :: nat
  requestCount :: "string \<Rightarrow> nat"
  stdout :: "string list"
  trace :: "event list"

text \<open>
  \<open>callExternalAPI\<close> (main.go, lines 23 and 30-37): a function of no argument that returns a
  status code or an error. The \<open>k\<close>-th call gets the \<open>k\<close>-th answer of the world.
\<close>

definition callExternalAPI :: "world \<Rightarrow> (int \<times> error option) \<times> world" where
  "callExternalAPI w = (let r = api w (calls w) in
     ((status r, map_option OperationFailure (failure r)),
      w\<lparr>now := now w + int (latency r), calls := calls w + 1,
        trace := trace w @ [EvCall]\<rparr>))"

text \<open>\<open>requestCount.WithLabelValues(label).Inc()\<close>\<close>

definition Inc :: "string \<Rightarrow> world \<Rightarrow> world" where
  "Inc label w = w\<lparr>requestCount := (requestCount w)(label := requestCount w label + 1)\<rparr>"

definition Printf :: "string \<Rightarrow> world \<Rightarrow> world" where
  "Printf s w = w\<lparr>stdout := stdout w @ [s]\<rparr>"

text \<open>\<open>time.Sleep(d)\<close> returns at once when \<open>d\<close> is not positive.\<close>

definition Sleep :: "int \<Rightarrow> world \<Rightarrow> world" where
  "Sleep d w = w\<lparr>now := now w + max d 0, trace := trace w @ [EvSleep d]\<rparr>"

text \<open>
  \<open>rand.Float64()\<close>: a float64 in the half-open interval from 0 to 1, made of 53 random bits.
\<close>

definition rand_Float64 :: "world \<Rightarrow> float64 \<times> world" where
  "rand_Float64 w = (Fin (of_nat (draws w (drawn w) mod 2 ^ 53) / 2 ^ 53),
     w\<lparr>drawn := drawn w + 1\<rparr>)"

subsection \<open>exponentialBackoff (main.go, lines 40-49)\<close>

text \<open>Lines 41-46: the exponential delay, capped.\<close>

definition backoffDelay :: "int \<Rightarrow> float64" where
  "backoffDelay attempt =
     (let mn = Fin (of_int (float64_int Second));
          mx = Fin (of_int (float64_int (30 * Second)));
          backoff = fmul mn (math_Pow2 (float64_int attempt))
      in if fgt backoff mx then mx else backoff)"

definition exponentialBackoff :: "int \<Rightarrow> world \<Rightarrow> int \<times> world" where
  "exponentialBackoff attempt w =
     (let backoff = backoffDelay attempt;
          (r, w1) = rand_Float64 w;
          jitter = fmul r backoff
      in (Duration_of jitter, w1))"

subsection \<open>The circuit breaker\<close>

text \<open>
  Modelled from the spec: the circuit breaker (package gobreaker: \<open>Counts\<close>, \<open>State\<close>,
  \<open>Settings\<close>, \<open>NewCircuitBreaker\<close> and \<open>Execute\<close>) is imported by main.go and is not part
  of the sources. The definitions of this subsection follow sections 3 and 4.1 of the
  specification, for one caller at a time.
\<close>

text \<open>
  Modelled from the spec: the counters of section 3. main.go reads the field
  \<open>ConsecutiveFailures\<close>; the fields are unsigned 32-bit integers.
\<close>

record Counts =
  Requests :: "32 word"
  TotalSuccesses :: "32 word"
  TotalFailures :: "32 word"
  ConsecutiveSuccesses :: "32 word"
  ConsecutiveFailures :: "32 word"

datatype State = StateClosed | StateHalfOpen | StateOpen

fun State_String :: "State \<Rightarrow> string" where
  "State_String StateClosed = ''closed''"
| "State_String StateHalfOpen = ''half-open''"
| "State_String StateOpen = ''open''"

text \<open>Modelled from the spec: the configuration of section 3, fixed for the breaker's life.\<close>

record Config =
  name :: string
  maxHalfOpenRequests :: "32 word"
  closedResetInterval :: int
  openTimeout :: int
  readyToTrip :: "Counts \<Rightarrow> world \<Rightarrow> bool \<times> world"
  onStateChange :: "string \<Rightarrow> State \<Rightarrow> State \<Rightarrow> world \<Rightarrow> world"

text \<open>
  Modelled from the spec: the breaker's own state (section 3). \<open>expiry\<close> is the end of the
  counting window while Closed (none when the interval is zero) and the time of the first probe
  while Open.
\<close>

record CircuitBreaker =
  state :: State
  generation :: nat
  counts :: Counts
  expiry :: "int option"

definition clear :: Counts where
  "clear = \<lparr>Requests = 0, TotalSuccesses = 0, TotalFailures = 0,
            ConsecutiveSuccesses = 0, ConsecutiveFailures = 0\<rparr>"

definition onRequest :: "Counts \<Rightarrow> Counts" where
  "onRequest c = c\<lparr>Requests := Requests c + 1\<rparr>"

definition onSuccess :: "Counts \<Rightarrow> Counts" where
  "onSuccess c = c\<lparr>TotalSuccesses := TotalSuccesses c + 1,
                   ConsecutiveSuccesses := ConsecutiveSuccesses c + 1,
                   ConsecutiveFailures := 0\<rparr>"

definition onFailure :: "Counts \<Rightarrow> Counts" where
  "onFailure c = c\<lparr>TotalFailures := TotalFailures c + 1,
                   ConsecutiveFailures := ConsecutiveFailures c + 1,
                   ConsecutiveSuccesses := 0\<rparr>"

definition closedExpiry :: "Config \<Rightarrow> int \<Rightarrow> int option" where
  "closedExpiry cfg t =
     (if closedResetInterval cfg = 0 then None else Some (t + closedResetInterval cfg))"

text \<open>
  Modelled from the spec: a state transition (section 4.1). The generation is incremented, the
  counters are reset on entering Closed and Half-Open, the expiry is set on entering Open, and
  the observer is called.
\<close>

definition setState :: "Config \<Rightarrow> State \<Rightarrow> int \<Rightarrow> CircuitBreaker \<Rightarrow> world \<Rightarrow> CircuitBreaker \<times> world" where
  "setState cfg s t cb w =
     (if state cb = s then (cb, w)
      else let prev = state cb;
               cb1 = cb\<lparr>state := s, generation := generation cb + 1\<rparr>;
               cb2 = (case s of
                   StateClosed \<Rightarrow> cb1\<lparr>counts := clear, expiry := closedExpiry cfg t\<rparr>
                 | StateHalfOpen \<Rightarrow> cb1\<lparr>counts := clear, expiry := None\<rparr>
                 | StateOpen \<Rightarrow> cb1\<lparr>expiry := Some (t + openTimeout cfg)\<rparr>)
           in (cb2, onStateChange cfg (name cfg) prev s w))"

text \<open>
  Modelled from the spec: what is consulted before admission. While Closed, the counters are
  reset when the interval has elapsed (no state change); while Open, the breaker becomes
  Half-Open when \<open>now \<ge> expiry\<close>.
\<close>

definition currentState :: "Config \<Rightarrow> int \<Rightarrow> CircuitBreaker \<Rightarrow> world \<Rightarrow> CircuitBreaker \<times> world" where
  "currentState cfg t cb w =
     (case state cb of
        StateClosed \<Rightarrow>
          (case expiry cb of
             None \<Rightarrow> (cb, w)
           | Some e \<Rightarrow> if e \<le> t then (cb\<lparr>counts := clear, expiry := closedExpiry cfg t\<rparr>, w)
                       else (cb, w))
      | StateHalfOpen \<Rightarrow> (cb, w)
      | StateOpen \<Rightarrow>
          (case expiry cb of
             None \<Rightarrow> setState cfg StateHalfOpen t cb w
           | Some e \<Rightarrow> if e \<le> t then setState cfg StateHalfOpen t cb w else (cb, w)))"

text \<open>
  Modelled from the spec: admission. Open rejects; Half-Open rejects beyond the cap, and a cap
  of zero is no cap; an admitted call is counted as a request and gets the generation.
\<close>

definition beforeRequest :: "Config \<Rightarrow> CircuitBreaker \<Rightarrow> world \<Rightarrow> (error + nat) \<times> CircuitBreaker \<times> world" where
  "beforeRequest cfg cb w =
     (case currentState cfg (now w) cb w of (cb1, w1) \<Rightarrow>
        if state cb1 = StateOpen then (Inl CircuitOpen, cb1, w1)
        else if state cb1 = StateHalfOpen \<and> 0 < maxHalfOpenRequests cfg
                \<and> maxHalfOpenRequests cfg \<le> Requests (counts cb1)
          then (Inl TooManyRequests, cb1, w1)
        else (Inr (generation cb1), cb1\<lparr>counts := onRequest (counts cb1)\<rparr>, w1))"

text \<open>
  Modelled from the spec: applying an outcome. An outcome of a stale generation is dropped.
  While Closed, \<open>readyToTrip\<close> is evaluated after a failure only. While Half-Open, a failure
  reopens and a success closes once \<open>maxHalfOpenRequests\<close> successes are consecutive.
\<close>

definition afterRequest :: "Config \<Rightarrow> nat \<Rightarrow> bool \<Rightarrow> CircuitBreaker \<Rightarrow> world \<Rightarrow> CircuitBreaker \<times> world" where
  "afterRequest cfg before success cb w =
     (if generation cb = before then
        (case state cb of
           StateClosed \<Rightarrow>
             if success then (cb\<lparr>counts := onSuccess (counts cb)\<rparr>, w)
             else (let cb1 = cb\<lparr>counts := onFailure (counts cb)\<rparr> in
                   case readyToTrip cfg (counts cb1) w of (trip, w1) \<Rightarrow>
                     if trip then setState cfg StateOpen (now w1) cb1 w1 else (cb1, w1))
         | StateHalfOpen \<Rightarrow>
             if success then
               (let cb1 = cb\<lparr>counts := onSuccess (counts cb)\<rparr> in
                if maxHalfOpenRequests cfg \<le> ConsecutiveSuccesses (counts cb1)
                then setState cfg StateClosed (now w) cb1 w else (cb1, w))
             else setState cfg StateOpen (now w) cb w
         | StateOpen \<Rightarrow> (cb, w))
      else (cb, w))"

text \<open>
  Modelled from the spec: \<open>Execute\<close>. A rejected call returns no result and the sentinel
  failure, without running the operation; an admitted call runs the operation once and returns
  what it returned.
\<close>

definition Execute :: "Config \<Rightarrow> CircuitBreaker \<Rightarrow> (world \<Rightarrow> (int \<times> error option) \<times> world) \<Rightarrow> world
    \<Rightarrow> (int option \<times> error option) \<times> CircuitBreaker \<times> world" where
  "Execute cfg cb req w =
     (case beforeRequest cfg cb w of
        (Inl e, cb1, w1) \<Rightarrow> ((None, Some e), cb1, w1)
      | (Inr g, cb1, w1) \<Rightarrow>
          (case req w1 of ((r, err), w2) \<Rightarrow>
             (case afterRequest cfg g (err = None) cb1 w2 of (cb2, w3) \<Rightarrow>
                ((Some r, err), cb2, w3))))"

text \<open>Modelled from the spec: a new breaker is Closed, with zero counters.\<close>

definition NewCircuitBreaker :: "Config \<Rightarrow> world \<Rightarrow> CircuitBreaker" where
  "NewCircuitBreaker cfg w =
     \<lparr>state = StateClosed, generation = 0, counts = clear, expiry = closedExpiry cfg (now w)\<rparr>"

subsection \<open>main (main.go, lines 51-106)\<close>

text \<open>Lines 61-65: the predicate given as \<open>ReadyToTrip\<close>.\<close>

definition ReadyToTrip :: "Counts \<Rightarrow> world \<Rightarrow> bool \<times> world" where
  "ReadyToTrip cnts w = (let w1 = Inc ''failure'' w in (3 < ConsecutiveFailures cnts, w1))"

text \<open>Lines 66-69: the observer given as \<open>OnStateChange\<close>.\<close>

definition OnStateChange :: "string \<Rightarrow> State \<Rightarrow> State \<Rightarrow> world \<Rightarrow> world" where
  "OnStateChange nm frm to w =
     (let w1 = Printf (''Circuit Breaker '' @ nm @ '' changed from '' @ State_String frm
                        @ '' to '' @ State_String to @ [CHR 0x0A]) w
      in Inc (State_String to) w1)"

text \<open>Lines 56-70: the settings.\<close>

definition settings :: Config where
  "settings = \<lparr>name = ''API Circuit Breaker'', maxHalfOpenRequests = 5,
     closedResetInterval = 60 * Second, openTimeout = 30 * Second,
     readyToTrip = ReadyToTrip, onStateChange = OnStateChange\<rparr>"

definition attempts :: nat where
  "attempts = 5"

text \<open>
  Lines 81-91: the retry loop, from the value \<open>i\<close> of its counter. \<open>res\<close> is the pair
  \<open>(result, err)\<close> of the handler's variables.
\<close>

function retry :: "nat \<Rightarrow> int option \<times> error option \<Rightarrow> CircuitBreaker \<Rightarrow> world
    \<Rightarrow> (int option \<times> error option) \<times> CircuitBreaker \<times> world" where
  "retry i res cb w =
     (if i < attempts then
        (case Execute settings cb callExternalAPI (w\<lparr>trace := trace w @ [EvExecute]\<rparr>) of
           ((result, err), cb1, w1) \<Rightarrow>
             if err = None then ((result, err), cb1, Inc ''success'' w1)
             else (case exponentialBackoff (int i) w1 of (d, w2) \<Rightarrow>
                     retry (Suc i) (result, err) cb1 (Sleep d w2)))
      else (res, cb, w))"
  by pat_completeness auto
termination
  by (relation "measure (\<lambda>(i, res, cb, w). attempts - i)") auto

declare retry.simps [simp del]

text \<open>What the handler does with its \<open>http.ResponseWriter\<close>.\<close>

datatype response = HttpError string nat | Write string

definition StatusServiceUnavailable :: nat where
  "StatusServiceUnavailable = 503"

fun digits :: "nat \<Rightarrow> string" where
  "digits n = (if n < 10 then [char_of (48 + n)]
               else digits (n div 10) @ [char_of (48 + n mod 10)])"

declare digits.simps [simp del]

text \<open>\<open>fmt.Sprintf("%v", result)\<close> for a result that is nil or holds an int.\<close>

definition fmt_v :: "int option \<Rightarrow> string" where
  "fmt_v r = (case r of
       None \<Rightarrow> ''<nil>''
     | Some n \<Rightarrow> if n < 0 then CHR ''-'' # digits (nat (- n)) else digits (nat n))"

text \<open>Lines 73-100: the handler of \<open>/api\<close>.\<close>

definition apiHandler :: "CircuitBreaker \<Rightarrow> world \<Rightarrow> response list \<times> CircuitBreaker \<times> world" where
  "apiHandler cb w =
     (case retry 0 (None, None) cb w of ((result, err), cb1, w1) \<Rightarrow>
        if err \<noteq> None
        then ([HttpError ''Service Unavailable'' StatusServiceUnavailable], cb1,
              Inc ''failure'' w1)
        else ([Write (''Request succeeded: '' @ fmt_v result)], cb1, w1))"


subsection \<open>Reading a trace\<close>

text \<open>The number of calls of \<open>Execute\<close> in a trace, and the durations slept, in order.\<close>

fun executes :: "event list \<Rightarrow> nat" where
  "executes [] = 0"
| "executes (EvExecute # es) = Suc (executes es)"
| "executes (e # es) = executes es"

fun sleeps :: "event list \<Rightarrow> int list" where
  "sleeps [] = []"
| "sleeps (EvSleep d # es) = d # sleeps es"
| "sleeps (e # es) = sleeps es"

text \<open>
  \<open>unobserved w w1\<close>: from \<open>w\<close> to \<open>w1\<close> nothing happened but printing and counting under labels
  other than \<open>success\<close>.
\<close>

definition unobserved :: "world \<Rightarrow> world \<Rightarrow> bool" where
  "unobserved w w1 = (now w1 = now w \<and> api w1 = api w \<and> calls w1 = calls w
     \<and> draws w1 = draws w \<and> drawn w1 = drawn w \<and> trace w1 = trace w
     \<and> requestCount w1 ''success'' = requestCount w ''success'')"

text \<open>
  The loop of main_test.go (lines 60-67): \<open>n\<close> calls of \<open>Execute\<close> in a row, results dropped.
\<close>

fun feed :: "nat \<Rightarrow> CircuitBreaker \<Rightarrow> world \<Rightarrow> CircuitBreaker \<times> world" where
  "feed 0 cb w = (cb, w)"
| "feed (Suc n) cb w = (case Execute settings cb callExternalAPI w of (res, cb1, w1) \<Rightarrow> feed n cb1 w1)"

subsection \<open>Example worlds\<close>

text \<open>
  A world at time 0 with nothing counted, printed or traced, whose random source always yields
  the middle draw (\<open>rand.Float64() = 0.5\<close>), around the answers \<open>a\<close> of the external API.
\<close>

definition world0 :: "(nat \<Rightarrow> reply) \<Rightarrow> world" where
  "world0 a = \<lparr>now = 0, api = a, calls = 0, draws = (\<lambda>k. 2 ^ 52), drawn = 0,
     requestCount = (\<lambda>l. 0), stdout = [], trace = []\<rparr>"

text \<open>An API that always fails, and one that fails twice and then answers 200.\<close>

definition failing :: "nat \<Rightarrow> reply" where
  "failing k = \<lparr>status = 0, failure = Some ''simulated failure'', latency = 0\<rparr>"

definition flaky :: "nat \<Rightarrow> reply" where
  "flaky k = (if k < 2 then \<lparr>status = 0, failure = Some ''simulated failure'', latency = 0\<rparr>
              else \<lparr>status = 200, failure = None, latency = 0\<rparr>)"

text \<open>
  A breaker that has just tripped: a new one after four failed calls in a row, as in
  main_test.go, and the world it is then in.
\<close>

definition tripped :: "CircuitBreaker \<times> world" where
  "tripped = feed 4 (NewCircuitBreaker settings (world0 failing)) (world0 failing)"

section \<open>Properties of the rounding\<close>

lemma pow2_powi: "pow2 e = 2 powi e"
  by (simp add: pow2_def power_int_def inverse_eq_divide power_one_over)

lemma pow2_pos: "0 < pow2 e"
  by (simp add: pow2_powi)

lemma pow2_add: "pow2 (a + b) = pow2 a * pow2 b"
  by (simp add: pow2_powi power_int_add)

lemma pow2_mono: "a \<le> b \<Longrightarrow> pow2 a \<le> pow2 b"
  by (simp add: pow2_powi power_int_increasing)

lemma pow2_strict_mono: "a < b \<Longrightarrow> pow2 a < pow2 b"
  by (simp add: pow2_powi power_int_strict_increasing)

lemma pow2_less_cancel: "pow2 a < pow2 b \<Longrightarrow> a < b"
  using pow2_mono[of b a] by (cases "a < b") auto

lemma pow2_nat: "0 \<le> e \<Longrightarrow> pow2 e = of_int (2 ^ nat e)"
  by (simp add: pow2_def)

lemma blen_pos: "0 < n \<Longrightarrow> 1 \<le> blen n"
proof (induction n rule: blen.induct)
  case (1 n)
  then show ?case
    by (cases "0 < n div 2") (simp_all add: not_less blen.simps[of n] blen.simps[of 0])
qed

lemma blen_nonneg: "0 \<le> blen n"
  by (cases "0 < n") (use blen_pos[of n] in \<open>auto simp: blen.simps[of n]\<close>)

lemma blen_bounds: "0 < n \<Longrightarrow> 2 ^ nat (blen n - 1) \<le> n \<and> n < 2 ^ nat (blen n)"
proof (induction n rule: blen.induct)
  case (1 n)
  show ?case
  proof (cases "n = 1")
    case True
    then show ?thesis by (simp add: blen.simps[of 1] blen.simps[of 0])
  next
    case False
    with "1.prems" have h: "0 < n div 2" by simp
    have ih: "2 ^ nat (blen (n div 2) - 1) \<le> n div 2 \<and> n div 2 < 2 ^ nat (blen (n div 2))"
      using "1.IH" "1.prems" h by simp
    have b: "1 \<le> blen (n div 2)" using h by (rule blen_pos)
    have e: "blen n = 1 + blen (n div 2)" using "1.prems" by (simp add: blen.simps[of n])
    have n1: "nat (blen n - 1) = Suc (nat (blen (n div 2) - 1))"
      using b e by (simp add: nat_diff_distrib Suc_nat_eq_nat_zadd1)
    have n2: "nat (blen n) = Suc (nat (blen (n div 2)))"
      using b e by (simp add: nat_add_distrib)
    show ?thesis using ih unfolding n1 n2 by (simp; linarith)
  qed
qed

lemma ilog2_bounds:
  assumes "0 < x"
  shows "pow2 (ilog2 x) \<le> x \<and> x < pow2 (ilog2 x + 1)"
proof (cases "1 \<le> x")
  case True
  define n where "n = \<lfloor>x\<rfloor>"
  have n: "0 < n" using True by (simp add: n_def)
  have e: "ilog2 x = blen n - 1" using True by (simp add: ilog2_def n_def)
  from blen_bounds[OF n] blen_pos[OF n]
  have lo: "2 ^ nat (blen n - 1) \<le> n" and hi: "n < 2 ^ nat (blen n)" and b: "1 \<le> blen n"
    by auto
  have "(of_int (2 ^ nat (blen n - 1)) :: rat) \<le> of_int n" using lo by (simp only: of_int_le_iff)
  also have "\<dots> \<le> x" by (simp add: n_def)
  finally have 1: "pow2 (ilog2 x) \<le> x" using b by (simp add: e pow2_nat)
  have "x < of_int (n + 1)" unfolding n_def by linarith
  also have "(of_int (n + 1) :: rat) \<le> of_int (2 ^ nat (blen n))"
    using hi by (simp only: of_int_le_iff; simp)
  finally have 2: "x < pow2 (ilog2 x + 1)" using b by (simp add: e pow2_nat)
  from 1 2 show ?thesis ..
next
  case False
  define y where "y = 1 / x"
  have y: "1 < y" using False assms by (simp add: y_def)
  define n where "n = \<lceil>y\<rceil> - 1"
  have n: "0 < n" using y unfolding n_def by simp
  have e: "ilog2 x = - blen n" using False by (simp add: ilog2_def n_def y_def)
  from blen_bounds[OF n] blen_pos[OF n]
  have lo: "2 ^ nat (blen n - 1) \<le> n" and hi: "n < 2 ^ nat (blen n)" and b: "1 \<le> blen n"
    by auto
  have "y \<le> of_int (n + 1)" unfolding n_def by simp
  also have "(of_int (n + 1) :: rat) \<le> of_int (2 ^ nat (blen n))"
    using hi by (simp only: of_int_le_iff; simp)
  finally have yle: "y \<le> 2 ^ nat (blen n)" by simp
  have "(of_int (2 ^ nat (blen n - 1)) :: rat) \<le> of_int n" using lo by (simp only: of_int_le_iff)
  also have "(of_int n :: rat) < y" unfolding n_def by linarith
  finally have ylo: "2 ^ nat (blen n - 1) < y" by simp
  have 1: "pow2 (ilog2 x) \<le> x"
    using yle assms b by (simp add: e pow2_def y_def field_simps)
  have p: "pow2 (ilog2 x + 1) = 1 / 2 ^ nat (blen n - 1)"
    using b by (auto simp: e pow2_def)
  have "x < 1 / 2 ^ nat (blen n - 1)"
    using ylo assms by (simp add: y_def field_simps)
  then have 2: "x < pow2 (ilog2 x + 1)"
    by (simp only: p)
  from 1 2 show ?thesis ..
qed

lemma rne_of_int: "rne (of_int k) = k"
  by (simp add: rne_def)

lemma rne_le: "q \<le> of_int k \<Longrightarrow> rne q \<le> k"
  unfolding rne_def Let_def
  by (auto simp: floor_le_iff)

lemma rne_ge: "of_int k \<le> q \<Longrightarrow> k \<le> rne q"
proof -
  assume "of_int k \<le> q"
  then have "k \<le> \<lfloor>q\<rfloor>" by (simp add: le_floor_iff)
  then show ?thesis unfolding rne_def Let_def by auto
qed

lemma round_sig_pos:
  "0 < x \<Longrightarrow> round_sig x = of_int (rne (x / pow2 (max (ilog2 x) (- 1022) - 52))) * pow2 (max (ilog2 x) (- 1022) - 52)"
  by (simp add: round_sig_def Let_def)

lemma grid:
  assumes x: "0 < x" and le: "x \<le> of_int m * pow2 j" and m: "m < 2 ^ 53" and j: "- 1074 \<le> j"
  shows "\<exists>k. of_int m * pow2 j = of_int k * pow2 (max (ilog2 x) (- 1022) - 52)"
proof -
  define t where "t = max (ilog2 x) (- 1022) - 52"
  have "pow2 (ilog2 x) \<le> x" using ilog2_bounds[OF x] by simp
  also note le
  also have "of_int m * pow2 j < of_int (2 ^ 53) * pow2 j"
    using m pow2_pos[of j] by (simp only: mult_less_cancel_right_pos of_int_less_iff)
  also have "\<dots> = pow2 (53 + j)"
  proof -
    have "pow2 53 = of_int (2 ^ 53)" by (simp add: pow2_def)
    then show ?thesis by (simp only: pow2_add)
  qed
  finally have "ilog2 x < 53 + j" by (rule pow2_less_cancel)
  with j have tj: "t \<le> j" by (simp add: t_def)
  have "pow2 j = pow2 ((j - t) + t)" by simp
  also have "\<dots> = pow2 (j - t) * pow2 t" by (rule pow2_add)
  also have "pow2 (j - t) = of_int (2 ^ nat (j - t))" using tj by (simp add: pow2_nat)
  finally have "of_int m * pow2 j = of_int (m * 2 ^ nat (j - t)) * pow2 t" by simp
  then show ?thesis unfolding t_def by blast
qed

lemma round_sig_upper:
  assumes x: "0 \<le> x" and le: "x \<le> of_int m * pow2 j" and m: "m < 2 ^ 53" and j: "- 1074 \<le> j"
  shows "0 \<le> round_sig x \<and> round_sig x \<le> of_int m * pow2 j"
proof (cases "x = 0")
  case True
  with le show ?thesis by (simp add: round_sig_def)
next
  case False
  with x have xp: "0 < x" by simp
  define u where "u = pow2 (max (ilog2 x) (- 1022) - 52)"
  have up: "0 < u" by (simp add: u_def pow2_pos)
  obtain k where k: "of_int m * pow2 j = of_int k * u"
    using grid[OF xp le m j] unfolding u_def by blast
  have r: "round_sig x = of_int (rne (x / u)) * u"
    unfolding u_def by (rule round_sig_pos[OF xp])
  have "x / u \<le> of_int k" using le up by (simp add: k pos_divide_le_eq)
  then have "rne (x / u) \<le> k" by (rule rne_le)
  then have "(of_int (rne (x / u)) :: rat) \<le> of_int k" by (simp only: of_int_le_iff)
  then have hi: "round_sig x \<le> of_int m * pow2 j"
    using up by (simp only: r k mult_le_cancel_right_pos)
  have "of_int 0 \<le> x / u" using xp up by simp
  then have "0 \<le> rne (x / u)" by (rule rne_ge)
  then have lo: "0 \<le> round_sig x" using up by (simp add: r)
  from lo hi show ?thesis ..
qed

lemma round_sig_exact:
  assumes m0: "0 \<le> m" and m: "m < 2 ^ 53" and j: "- 1074 \<le> j"
  shows "round_sig (of_int m * pow2 j) = of_int m * pow2 j"
proof (cases "m = 0")
  case True
  then show ?thesis by (simp add: round_sig_def)
next
  case False
  define x where "x = (of_int m :: rat) * pow2 j"
  have xp: "0 < x" using False m0 pow2_pos[of j] by (simp add: x_def)
  define u where "u = pow2 (max (ilog2 x) (- 1022) - 52)"
  have up: "0 < u" by (simp add: u_def pow2_pos)
  have "x \<le> of_int m * pow2 j" by (simp add: x_def)
  from grid[OF xp this m j] obtain k where k: "x = of_int k * u"
    unfolding u_def x_def by blast
  have r: "round_sig x = of_int (rne (x / u)) * u"
    unfolding u_def by (rule round_sig_pos[OF xp])
  have "x / u = of_int k" using up by (simp add: k)
  then have "rne (x / u) = k" by (simp only: rne_of_int)
  then have "round_sig x = of_int k * u" by (simp only: r)
  then have "round_sig x = x" by (simp only: k)
  then show ?thesis by (simp only: x_def)
qed

lemma round_sig_lower:
  assumes le: "pow2 k \<le> x" and k: "- 1022 \<le> k"
  shows "pow2 k \<le> round_sig x"
proof -
  have xp: "0 < x" using pow2_pos[of k] le by simp
  define e where "e = ilog2 x"
  have b: "pow2 e \<le> x" "x < pow2 (e + 1)" using ilog2_bounds[OF xp] by (simp_all add: e_def)
  have "pow2 k < pow2 (e + 1)" using le b(2) by simp
  then have ke: "k \<le> e" using pow2_less_cancel[of k "e + 1"] by simp
  with k have t: "max e (- 1022) - 52 = e - 52" by simp
  define u where "u = pow2 (e - 52)"
  have up: "0 < u" by (simp add: u_def pow2_pos)
  have r: "round_sig x = of_int (rne (x / u)) * u"
    using round_sig_pos[OF xp] by (simp add: u_def e_def[symmetric] t)
  have pe: "pow2 e = of_int (2 ^ 52) * u"
    using pow2_add[of 52 "e - 52"] by (simp add: u_def pow2_def)
  have "of_int (2 ^ 52) \<le> x / u" using b(1) up by (simp add: pe pos_le_divide_eq)
  then have "2 ^ 52 \<le> rne (x / u)" by (rule rne_ge)
  then have "(of_int (2 ^ 52) :: rat) \<le> of_int (rne (x / u))" by (simp only: of_int_le_iff)
  then have "pow2 e \<le> round_sig x" using up by (simp only: r pe mult_le_cancel_right_pos)
  with pow2_mono[OF ke] show ?thesis by simp
qed

lemma round64_upper:
  assumes "0 \<le> x" "x \<le> of_int m * pow2 j" "m < 2 ^ 53" "- 1074 \<le> j"
    and "of_int m * pow2 j < pow2 1024"
  shows "\<exists>y. round64 x = Fin y \<and> 0 \<le> y \<and> y \<le> of_int m * pow2 j"
proof -
  from round_sig_upper[OF assms(1-4)]
  have "0 \<le> round_sig x" "round_sig x \<le> of_int m * pow2 j" by simp_all
  with assms(5) have "round64 x = Fin (round_sig x)"
    by (simp only: round64_def Let_def) simp
  with \<open>0 \<le> round_sig x\<close> \<open>round_sig x \<le> of_int m * pow2 j\<close> show ?thesis by blast
qed

lemma round64_exact:
  assumes "0 \<le> m" "m < 2 ^ 53" "- 1074 \<le> j" "of_int m * pow2 j < pow2 1024"
  shows "round64 (of_int m * pow2 j) = Fin (of_int m * pow2 j)"
proof -
  have "0 \<le> (of_int m :: rat) * pow2 j" using assms(1) pow2_pos[of j] by simp
  then show ?thesis
    using assms(4) by (simp only: round64_def Let_def round_sig_exact[OF assms(1-3)]) simp
qed

lemma round64_overflow:
  assumes "pow2 1024 \<le> x"
  shows "round64 x = PInf"
proof -
  have "pow2 1024 \<le> round_sig x" using assms by (rule round_sig_lower) simp
  moreover have "0 < pow2 1024" by (rule pow2_pos)
  ultimately show ?thesis by (simp only: round64_def Let_def) simp
qed


section \<open>The backoff delay\<close>

lemma round_sig_neg: "round_sig (- x) = - round_sig x"
  by (simp add: round_sig_def Let_def sgn_minus)

lemma round_sig_of_int:
  assumes "\<bar>a\<bar> < 2 ^ 53"
  shows "round_sig (of_int a) = of_int a"
proof (cases "0 \<le> a")
  case True
  with assms have "round_sig (of_int a * pow2 0) = of_int a * pow2 0"
    by (intro round_sig_exact) simp_all
  then show ?thesis by (simp add: pow2_def)
next
  case False
  with assms have "round_sig (of_int (- a) * pow2 0) = of_int (- a) * pow2 0"
    by (intro round_sig_exact) simp_all
  then have "round_sig (- of_int a) = - of_int a" by (simp add: pow2_def)
  then show ?thesis by (simp add: round_sig_neg)
qed

lemma float64_int_exact: "\<bar>a\<bar> < 2 ^ 53 \<Longrightarrow> float64_int a = a"
  by (simp add: float64_int_def round_sig_of_int)

lemma float64_int_big:
  assumes "2 ^ 53 \<le> a"
  shows "2 ^ 53 \<le> float64_int a"
proof -
  have p: "pow2 53 = of_int (2 ^ 53)" by (simp add: pow2_def)
  have "pow2 53 \<le> of_int a" using assms unfolding p by (simp only: of_int_le_iff)
  then have "pow2 53 \<le> round_sig (of_int a)" by (rule round_sig_lower) simp
  then have "of_int (2 ^ 53) \<le> round_sig (of_int a)" by (simp only: p)
  then show ?thesis unfolding float64_int_def by (simp only: le_floor_iff)
qed

lemma float64_int_small:
  assumes "a \<le> - (2 ^ 53)"
  shows "float64_int a \<le> - (2 ^ 53)"
proof -
  have p: "pow2 53 = of_int (2 ^ 53)" by (simp add: pow2_def)
  have "2 ^ 53 \<le> - a" using assms by simp
  then have "pow2 53 \<le> of_int (- a)" unfolding p by (simp only: of_int_le_iff)
  then have "pow2 53 \<le> round_sig (of_int (- a))" by (rule round_sig_lower) simp
  then have "round_sig (of_int a) \<le> of_int (- (2 ^ 53))"
    by (simp add: round_sig_neg p)
  then have "\<lfloor>round_sig (of_int a)\<rfloor> \<le> - (2 ^ 53)"
    by (simp only: floor_le_iff)
  then show ?thesis by (simp only: float64_int_def)
qed

lemma float64_int_ge_1024: "1024 \<le> a \<Longrightarrow> 1024 \<le> float64_int a"
  using float64_int_exact[of a] float64_int_big[of a] by (cases "a < 2 ^ 53") auto

lemma float64_int_lt_m1074: "a < - 1074 \<Longrightarrow> float64_int a < - 1074"
  using float64_int_exact[of a] float64_int_small[of a] by (cases "- (2 ^ 53) < a") auto

lemma float64_Second: "float64_int Second = Second" "float64_int (30 * Second) = 30 * Second"
  by (simp_all add: float64_int_exact Second_def)

lemma pow2_1024_big: "(of_int (30 * Second) :: rat) < pow2 1024"
proof -
  have "(of_int (30 * Second) :: rat) < pow2 35" by (simp add: pow2_def Second_def)
  also have "pow2 35 \<le> pow2 1024" by (rule pow2_mono) simp
  finally show ?thesis .
qed

lemma backoffDelay_nonneg:
  assumes "0 \<le> a"
  shows "backoffDelay a = Fin (of_int (min (Second * 2 ^ nat a) (30 * Second)))"
proof (cases "a < 5")
  case True
  with assms have a: "float64_int a = a" by (simp add: float64_int_exact)
  have p: "math_Pow2 a = Fin (pow2 a)" using True assms by (simp add: math_Pow2_def)
  have "of_int Second * pow2 a \<le> of_int Second * pow2 4"
    using True pow2_mono[of a 4] by (simp add: Second_def)
  also have "\<dots> < pow2 35" by (simp add: pow2_def Second_def)
  also have "pow2 35 \<le> pow2 1024" by (rule pow2_mono) simp
  finally have lt: "of_int Second * pow2 a < pow2 1024" .
  have e: "round64 (of_int Second * pow2 a) = Fin (of_int Second * pow2 a)"
    using lt assms by (intro round64_exact) (simp_all add: Second_def)
  have v: "of_int Second * pow2 a = (of_int (Second * 2 ^ nat a) :: rat)"
    using assms by (simp add: pow2_nat)
  have "nat a \<le> 4" using True by simp
  then have "(2::int) ^ nat a \<le> 2 ^ 4" by (intro power_increasing) simp_all
  then have s: "Second * 2 ^ nat a \<le> 30 * Second" by (simp add: Second_def)
  have "fmul (Fin (of_int Second)) (math_Pow2 (float64_int a)) = Fin (of_int Second * pow2 a)"
    by (simp only: a p fmul.simps e)
  then have f: "fmul (Fin (of_int Second)) (math_Pow2 (float64_int a)) = Fin (of_int (Second * 2 ^ nat a))"
    by (simp only: v)
  have g: "fgt (Fin (of_int (Second * 2 ^ nat a))) (Fin (of_int (30 * Second))) = False"
    using s by (simp only: fgt.simps of_int_less_iff) simp
  show ?thesis
    by (simp only: backoffDelay_def Let_def float64_Second f g if_False min_absorb1[OF s])
next
  case False
  then have a5: "5 \<le> a" by simp
  then have "5 \<le> nat a" by simp
  then have "(2::int) ^ 5 \<le> 2 ^ nat a" by (intro power_increasing) simp_all
  then have s: "30 * Second < Second * 2 ^ nat a" by (simp add: Second_def)
  have cap: "fgt (fmul (Fin (of_int Second)) (math_Pow2 (float64_int a))) (Fin (of_int (30 * Second)))"
  proof (cases "1024 \<le> float64_int a")
    case True
    then show ?thesis by (simp add: math_Pow2_def Second_def)
  next
    case False
    with float64_int_ge_1024[of a] have a1: "a < 1024" by (cases "a < 1024") auto
    with a5 have a: "float64_int a = a" by (simp add: float64_int_exact)
    have p: "math_Pow2 a = Fin (pow2 a)" using a1 a5 by (simp add: math_Pow2_def)
    have v: "of_int Second * pow2 a = (of_int (Second * 2 ^ nat a) :: rat)"
      using a5 by (simp add: pow2_nat)
    show ?thesis
    proof (cases "of_int Second * pow2 a < pow2 1024")
      case True
      then have e: "round64 (of_int Second * pow2 a) = Fin (of_int Second * pow2 a)"
        using a5 by (intro round64_exact) (simp_all add: Second_def)
      have l: "(of_int (30 * Second) :: rat) < of_int (Second * 2 ^ nat a)"
        using s by (simp only: of_int_less_iff)
      have "fmul (Fin (of_int Second)) (math_Pow2 (float64_int a)) = Fin (of_int Second * pow2 a)"
        by (simp only: a p fmul.simps e)
      then have "fmul (Fin (of_int Second)) (math_Pow2 (float64_int a)) = Fin (of_int (Second * 2 ^ nat a))"
        by (simp only: v)
      then show ?thesis using l by (simp only: fgt.simps)
    next
      case False
      then have "round64 (of_int Second * pow2 a) = PInf"
        by (intro round64_overflow) simp
      then have "fmul (Fin (of_int Second)) (math_Pow2 (float64_int a)) = PInf"
        by (simp only: a p fmul.simps)
      then show ?thesis by simp
    qed
  qed
  show ?thesis
    by (simp only: backoffDelay_def Let_def float64_Second cap if_True
        min_absorb2[OF less_imp_le[OF s]])
qed

lemma round64_zero: "round64 0 = Fin 0"
  using pow2_pos[of 1024] by (simp add: round64_def round_sig_def)

lemma backoffDelay_neg:
  assumes "a < 0"
  shows "backoffDelay a = Fin (if a < - 1074 then 0 else of_int Second * pow2 a)"
proof (cases "a < - 1074")
  case True
  then have "float64_int a < - 1074" by (rule float64_int_lt_m1074)
  then have "math_Pow2 (float64_int a) = Fin 0" by (simp add: math_Pow2_def)
  then have f: "fmul (Fin (of_int Second)) (math_Pow2 (float64_int a)) = Fin 0"
    by (simp add: round64_zero)
  have g: "fgt (Fin 0) (Fin (of_int (30 * Second))) = False" by (simp add: Second_def)
  show ?thesis
    by (simp only: backoffDelay_def Let_def float64_Second f g if_False True if_True)
next
  case False
  with assms have a: "float64_int a = a" by (simp add: float64_int_exact)
  have p: "math_Pow2 a = Fin (pow2 a)" using False assms by (simp add: math_Pow2_def)
  have v: "of_int Second * pow2 a = of_int 1953125 * pow2 (a + 9)"
    by (simp add: pow2_add[of a 9] Second_def pow2_def[of 9])
  have "pow2 a \<le> pow2 0" using assms by (intro pow2_mono) simp
  then have le: "of_int Second * pow2 a \<le> of_int Second" by (simp add: pow2_def Second_def)
  also have "(of_int Second :: rat) < pow2 35" by (simp add: pow2_def Second_def)
  also have "pow2 35 \<le> pow2 1024" by (rule pow2_mono) simp
  finally have lt: "of_int 1953125 * pow2 (a + 9) < pow2 1024" by (simp only: v)
  have "round64 (of_int 1953125 * pow2 (a + 9)) = Fin (of_int 1953125 * pow2 (a + 9))"
    using lt False by (intro round64_exact) simp_all
  then have e: "round64 (of_int Second * pow2 a) = Fin (of_int Second * pow2 a)"
    by (simp only: v)
  have f: "fmul (Fin (of_int Second)) (math_Pow2 (float64_int a)) = Fin (of_int Second * pow2 a)"
    by (simp only: a p fmul.simps e)
  have g: "fgt (Fin (of_int Second * pow2 a)) (Fin (of_int (30 * Second))) = False"
    using le by (simp add: Second_def)
  show ?thesis
    using False by (simp only: backoffDelay_def Let_def float64_Second f g if_False)
qed

lemma rand_Float64_range: "\<exists>r. fst (rand_Float64 w) = Fin r \<and> 0 \<le> r \<and> r < 1"
proof -
  have "draws w (drawn w) mod 2 ^ 53 < 2 ^ 53" by simp
  then have "(of_nat (draws w (drawn w) mod 2 ^ 53) :: rat) < of_nat (2 ^ 53)"
    by (simp only: of_nat_less_iff)
  then have "(of_nat (draws w (drawn w) mod 2 ^ 53) :: rat) / 2 ^ 53 < 1" by simp
  then show ?thesis
    by (intro exI[of _ "of_nat (draws w (drawn w) mod 2 ^ 53) / 2 ^ 53"])
       (simp add: rand_Float64_def)
qed

lemma jitter_bound:
  assumes r: "0 \<le> r" "r \<le> 1" and m: "0 \<le> m" "m < 2 ^ 53" and j: "- 1074 \<le> j"
    and lt: "of_int m * pow2 j < pow2 1024"
  shows "\<exists>y. fmul (Fin r) (Fin (of_int m * pow2 j)) = Fin y \<and> 0 \<le> y \<and> y \<le> of_int m * pow2 j"
proof -
  have b: "0 \<le> (of_int m :: rat) * pow2 j" using m(1) pow2_pos[of j] by simp
  have 1: "0 \<le> r * (of_int m * pow2 j)" using r(1) b by simp
  have 2: "r * (of_int m * pow2 j) \<le> of_int m * pow2 j"
    using mult_right_mono[OF r(2) b] by simp
  from round64_upper[OF 1 2 m(2) j lt] show ?thesis by (simp only: fmul.simps)
qed

lemma Duration_of_Fin:
  assumes "0 \<le> y" "y \<le> of_int b" "b < 2 ^ 63"
  shows "Duration_of (Fin y) = \<lfloor>y\<rfloor> \<and> 0 \<le> \<lfloor>y\<rfloor> \<and> \<lfloor>y\<rfloor> \<le> b"
proof -
  have 1: "0 \<le> \<lfloor>y\<rfloor>" using assms(1) by simp
  have 2: "\<lfloor>y\<rfloor> \<le> b" using assms(2) by (simp add: floor_le_iff)
  show ?thesis using 1 2 assms by (simp add: Duration_of_def Let_def)
qed

lemma exponentialBackoff_fst:
  "fst (exponentialBackoff a w) = Duration_of (fmul (fst (rand_Float64 w)) (backoffDelay a))"
  by (simp add: exponentialBackoff_def Let_def split: prod.splits)

lemma exponentialBackoff_snd:
  "snd (exponentialBackoff a w) = w\<lparr>drawn := drawn w + 1\<rparr>"
  by (simp add: exponentialBackoff_def Let_def rand_Float64_def split: prod.splits)

lemma backoff_bound:
  assumes d: "backoffDelay a = Fin (of_int m * pow2 j)"
    and m: "0 \<le> m" "m < 2 ^ 53" and j: "- 1074 \<le> j"
    and b: "of_int m * pow2 j \<le> of_int b" "b < 2 ^ 63"
  shows "0 \<le> fst (exponentialBackoff a w) \<and> fst (exponentialBackoff a w) \<le> b"
proof -
  obtain r where r: "fst (rand_Float64 w) = Fin r" "0 \<le> r" "r < 1"
    using rand_Float64_range by blast
  have "(of_int b :: rat) < of_int (2 ^ 63)" using b(2) by (simp only: of_int_less_iff)
  also have "\<dots> = pow2 63" by (simp add: pow2_def)
  also have "pow2 63 \<le> pow2 1024" by (rule pow2_mono) simp
  finally have lt: "of_int m * pow2 j < pow2 1024" using b(1) by simp
  obtain y where y: "fmul (Fin r) (Fin (of_int m * pow2 j)) = Fin y" "0 \<le> y" "y \<le> of_int m * pow2 j"
    using jitter_bound[OF r(2) less_imp_le[OF r(3)] m j lt] by blast
  have "y \<le> of_int b" using y(3) b(1) by simp
  from Duration_of_Fin[OF y(2) this b(2)] show ?thesis
    by (simp only: exponentialBackoff_fst r(1) d y(1))
qed

lemma exponentialBackoff_half:
  assumes a: "0 \<le> a" and h: "draws w (drawn w) mod 2 ^ 53 = 2 ^ 52"
  shows "fst (exponentialBackoff a w) = min (Second * 2 ^ nat a) (30 * Second) div 2"
proof -
  define M where "M = min (Second * 2 ^ nat a) (30 * Second)"
  have M0: "0 \<le> M" by (simp add: M_def Second_def)
  have M1: "M \<le> 30 * Second" by (simp add: M_def)
  then have M2: "M < 2 ^ 53" by (simp add: Second_def)
  have r: "fst (rand_Float64 w) = Fin (1 / 2)" using h by (simp add: rand_Float64_def)
  have d: "backoffDelay a = Fin (of_int M)" unfolding M_def using a by (rule backoffDelay_nonneg)
  have v: "1 / 2 * (of_int M :: rat) = of_int M * pow2 (- 1)" by (simp add: pow2_def)
  have "of_int M * pow2 (- 1) \<le> (of_int M :: rat)" using M0 by (simp add: pow2_def)
  also have "(of_int M :: rat) \<le> of_int (30 * Second)" using M1 by (simp only: of_int_le_iff)
  also note pow2_1024_big
  finally have lt: "of_int M * pow2 (- 1) < pow2 1024" .
  have e: "round64 (of_int M * pow2 (- 1)) = Fin (of_int M * pow2 (- 1))"
    using M0 M2 lt by (intro round64_exact) simp_all
  have f: "fmul (Fin (1 / 2)) (Fin (of_int M)) = Fin (of_int M / 2)"
    by (simp only: fmul.simps v e) (simp add: pow2_def)
  have "\<lfloor>(of_int M :: rat) / 2\<rfloor> = M div 2"
    using floor_divide_of_int_eq[of M 2, where ?'a = rat] by simp
  moreover have "0 \<le> M div 2" "M div 2 < 2 ^ 63" using M0 M2 by simp_all
  moreover have "0 \<le> (of_int M :: rat) / 2" using M0 by simp
  ultimately have "Duration_of (Fin (of_int M / 2)) = M div 2"
    by (simp add: Duration_of_def Let_def)
  then have "fst (exponentialBackoff a w) = M div 2"
    by (simp only: exponentialBackoff_fst r d f)
  then show ?thesis by (simp only: M_def)
qed

text \<open>
  C4. For every non-negative attempt, however large, the computed delay is exactly
  \<open>min (1 s * 2^attempt) (30 s)\<close>, never below one second; the returned duration is that delay
  times the random draw, rounded and truncated, and lies between 0 and that delay; with the
  middle draw it is half the delay.
\<close>

theorem exponentialBackoff_range:
  assumes "0 \<le> attempt"
  shows "backoffDelay attempt = Fin (of_int (min (Second * 2 ^ nat attempt) (30 * Second)))
    \<and> Second \<le> min (Second * 2 ^ nat attempt) (30 * Second)
    \<and> fst (exponentialBackoff attempt w)
        = Duration_of (fmul (fst (rand_Float64 w))
            (Fin (of_int (min (Second * 2 ^ nat attempt) (30 * Second)))))
    \<and> 0 \<le> fst (exponentialBackoff attempt w)
    \<and> fst (exponentialBackoff attempt w) \<le> min (Second * 2 ^ nat attempt) (30 * Second)
    \<and> (draws w (drawn w) mod 2 ^ 53 = 2 ^ 52 \<longrightarrow>
         fst (exponentialBackoff attempt w) = min (Second * 2 ^ nat attempt) (30 * Second) div 2)"
proof -
  define M where "M = min (Second * 2 ^ nat attempt) (30 * Second)"
  have d: "backoffDelay attempt = Fin (of_int M)"
    unfolding M_def using assms by (rule backoffDelay_nonneg)
  have "(1::int) \<le> 2 ^ nat attempt" by simp
  then have s: "Second \<le> M" by (simp add: M_def Second_def)
  then have M0: "0 \<le> M" by (simp add: Second_def)
  have "M \<le> 30 * Second" by (simp add: M_def)
  then have M2: "M < 2 ^ 53" "M < 2 ^ 63" by (simp_all add: Second_def)
  have d': "backoffDelay attempt = Fin (of_int M * pow2 0)" by (simp add: d pow2_def)
  have "(of_int M :: rat) * pow2 0 \<le> of_int M" by (simp add: pow2_def)
  from backoff_bound[OF d' M0 M2(1) _ this M2(2), of w]
  have b: "0 \<le> fst (exponentialBackoff attempt w)" "fst (exponentialBackoff attempt w) \<le> M"
    by simp_all
  have e: "fst (exponentialBackoff attempt w) = Duration_of (fmul (fst (rand_Float64 w)) (Fin (of_int M)))"
    by (simp only: exponentialBackoff_fst d)
  have h: "draws w (drawn w) mod 2 ^ 53 = 2 ^ 52 \<longrightarrow> fst (exponentialBackoff attempt w) = M div 2"
    using exponentialBackoff_half[OF assms, of w] by (simp add: M_def)
  from d s e b h show ?thesis unfolding M_def by blast
qed

theorem exponentialBackoff_range_witness:
  "(0::int) \<le> 2000
   \<and> backoffDelay 2000 = Fin 30000000000
   \<and> fst (exponentialBackoff 2000 (world0 failing)) = 15000000000"
  using exponentialBackoff_range[of 2000 "world0 failing"]
  by (simp add: Second_def world0_def)

text \<open>
  C10. For every integer attempt the returned duration is between 0 and 30 s. For a negative
  attempt the computed delay is \<open>1 s * 2^attempt\<close> (0 once the power underflows), a fraction
  of one second, and the returned duration is below one second.
\<close>

theorem exponentialBackoff_total:
  "0 \<le> fst (exponentialBackoff attempt w)
   \<and> fst (exponentialBackoff attempt w) \<le> 30 * Second
   \<and> (attempt < 0 \<longrightarrow>
        backoffDelay attempt = Fin (if attempt < - 1074 then 0 else of_int Second * pow2 attempt)
        \<and> fst (exponentialBackoff attempt w) < Second)"
proof (cases "attempt < 0")
  case False
  define M where "M = min (Second * 2 ^ nat attempt) (30 * Second)"
  have d: "backoffDelay attempt = Fin (of_int M * pow2 0)"
    unfolding M_def using False by (simp add: backoffDelay_nonneg pow2_def)
  have M0: "0 \<le> M" by (simp add: M_def Second_def)
  have M1: "M \<le> 30 * Second" by (simp add: M_def)
  then have M2: "M < 2 ^ 53" by (simp add: Second_def)
  have le: "(of_int M :: rat) * pow2 0 \<le> of_int (30 * Second)"
    using M1 by (simp add: pow2_def)
  have "30 * Second < 2 ^ 63" by (simp add: Second_def)
  from backoff_bound[OF d M0 M2 _ le this, of w] False show ?thesis by simp
next
  case True
  have d: "backoffDelay attempt = Fin (if attempt < - 1074 then 0 else of_int Second * pow2 attempt)"
    using True by (rule backoffDelay_neg)
  have "0 \<le> fst (exponentialBackoff attempt w) \<and> fst (exponentialBackoff attempt w) \<le> 500000000"
  proof (cases "attempt < - 1074")
    case True
    with d have "backoffDelay attempt = Fin (of_int 0 * pow2 0)" by simp
    from backoff_bound[OF this, of 500000000 w] show ?thesis by simp
  next
    case False
    have v: "of_int Second * pow2 attempt = of_int 1953125 * pow2 (attempt + 9)"
      by (simp add: pow2_add[of attempt 9] Second_def pow2_def[of 9])
    from d False have d': "backoffDelay attempt = Fin (of_int 1953125 * pow2 (attempt + 9))"
      by (simp only: v if_False)
    have "pow2 attempt \<le> pow2 (- 1)" using True by (intro pow2_mono) simp
    then have "of_int Second * pow2 attempt \<le> of_int 500000000"
      by (simp add: pow2_def Second_def)
    then have le: "of_int 1953125 * pow2 (attempt + 9) \<le> of_int 500000000" by (simp only: v)
    from backoff_bound[OF d' _ _ _ le, of w] False show ?thesis by simp
  qed
  with d True show ?thesis by (simp add: Second_def)
qed

theorem exponentialBackoff_total_witness:
  "(- 1 :: int) < 0
   \<and> backoffDelay (- 1) = Fin 500000000
   \<and> 0 \<le> fst (exponentialBackoff (- 1) (world0 failing))
   \<and> fst (exponentialBackoff (- 1) (world0 failing)) < Second"
  using exponentialBackoff_total[of "- 1" "world0 failing"]
  by (simp add: Second_def pow2_def)

section \<open>What one call of Execute changes\<close>


lemma unobserved_refl: "unobserved w w"
  by (simp add: unobserved_def)

lemma setState_frame:
  assumes "setState settings s t cb w = (cb1, w1)"
  shows "unobserved w w1 \<and> requestCount w1 ''failure'' = requestCount w ''failure''"
  using assms
  by (cases s)
     (auto simp: setState_def settings_def OnStateChange_def Inc_def Printf_def unobserved_def
       Let_def split: if_splits)

lemma setState_HalfOpen:
  assumes "setState settings StateHalfOpen t cb w = (cb1, w1)" "state cb \<noteq> StateHalfOpen"
  shows "state cb1 = StateHalfOpen \<and> Requests (counts cb1) = 0"
  using assms by (auto simp: setState_def Let_def clear_def)

lemma currentState_frame:
  assumes "currentState settings t cb w = (cb1, w1)"
  shows "unobserved w w1 \<and> requestCount w1 ''failure'' = requestCount w ''failure''
     \<and> (state cb1 = StateOpen \<or> state cb1 = StateHalfOpen \<and> 5 \<le> Requests (counts cb1)
          \<longrightarrow> cb1 = cb \<and> w1 = w)"
proof (cases "state cb")
  case StateClosed
  with assms show ?thesis
    by (auto simp: currentState_def unobserved_def split: option.splits if_splits)
next
  case StateHalfOpen
  with assms show ?thesis by (simp add: currentState_def unobserved_def)
next
  case StateOpen
  show ?thesis
  proof (cases "currentState settings t cb w = (cb, w)")
    case True
    with assms show ?thesis by (simp add: unobserved_def)
  next
    case False
    with assms StateOpen have s: "setState settings StateHalfOpen t cb w = (cb1, w1)"
      by (auto simp: currentState_def split: option.splits if_splits)
    from setState_frame[OF s] setState_HalfOpen[OF s] StateOpen show ?thesis by simp
  qed
qed

lemma beforeRequest_cases:
  "beforeRequest settings cb w = (Inl CircuitOpen, cb, w)
   \<or> beforeRequest settings cb w = (Inl TooManyRequests, cb, w)
   \<or> (\<exists>g cb1 w1. beforeRequest settings cb w = (Inr g, cb1, w1) \<and> unobserved w w1
        \<and> requestCount w1 ''failure'' = requestCount w ''failure'')"
proof -
  obtain cb1 w1 where c: "currentState settings (now w) cb w = (cb1, w1)"
    by (cases "currentState settings (now w) cb w") blast
  have m: "maxHalfOpenRequests settings = 5" by (simp add: settings_def)
  from currentState_frame[OF c] show ?thesis
    by (auto simp: beforeRequest_def c m)
qed

lemma afterRequest_frame:
  assumes "afterRequest settings g succ cb w = (cb1, w1)"
  shows "unobserved w w1 \<and> requestCount w ''failure'' \<le> requestCount w1 ''failure''
     \<and> requestCount w1 ''failure'' \<le> requestCount w ''failure'' + (if succ then 0 else 1)"
proof (cases "generation cb = g")
  case False
  with assms show ?thesis by (simp add: afterRequest_def unobserved_def)
next
  case True
  note g = this
  show ?thesis
  proof (cases "state cb")
    case StateOpen
    with assms g show ?thesis by (simp add: afterRequest_def unobserved_def)
  next
    case StateHalfOpen
    show ?thesis
    proof (cases "\<exists>s c. setState settings s (now w) c w = (cb1, w1)")
      case True
      then obtain s c where "setState settings s (now w) c w = (cb1, w1)" by blast
      from setState_frame[OF this] show ?thesis by simp
    next
      case False
      with assms g StateHalfOpen have "w1 = w"
        by (auto simp: afterRequest_def Let_def split: if_splits)
      then show ?thesis by (simp add: unobserved_def)
    qed
  next
    case StateClosed
    show ?thesis
    proof (cases succ)
      case True
      with assms g StateClosed show ?thesis by (auto simp: afterRequest_def unobserved_def)
    next
      case False
      define w2 where "w2 = Inc ''failure'' w"
      have r: "readyToTrip settings c w = (3 < ConsecutiveFailures c, w2)" for c
        by (simp add: settings_def ReadyToTrip_def w2_def)
      have u: "unobserved w w2" "requestCount w2 ''failure'' = requestCount w ''failure'' + 1"
        by (simp_all add: w2_def Inc_def unobserved_def)
      show ?thesis
      proof (cases "w1 = w2")
        case True
        with u False show ?thesis by simp
      next
        case False
        with assms g StateClosed \<open>\<not> succ\<close> obtain c where
          "setState settings StateOpen (now w2) c w2 = (cb1, w1)"
          by (auto simp: afterRequest_def Let_def r split: if_splits)
        from setState_frame[OF this] u \<open>\<not> succ\<close> show ?thesis
          by (simp add: unobserved_def)
      qed
    qed
  qed
qed

lemma callExternalAPI_eq:
  "callExternalAPI w = ((status (api w (calls w)), map_option OperationFailure (failure (api w (calls w)))),
     w\<lparr>now := now w + int (latency (api w (calls w))), calls := Suc (calls w), trace := trace w @ [EvCall]\<rparr>)"
  by (simp add: callExternalAPI_def Let_def)

lemma Execute_frame:
  "(\<exists>e. (e = CircuitOpen \<or> e = TooManyRequests)
        \<and> Execute settings cb callExternalAPI w = ((None, Some e), cb, w))
   \<or> (\<exists>cb1 w1. Execute settings cb callExternalAPI w
          = ((Some (status (api w (calls w))),
              map_option OperationFailure (failure (api w (calls w)))), cb1, w1)
        \<and> trace w1 = trace w @ [EvCall] \<and> calls w1 = Suc (calls w)
        \<and> now w1 = now w + int (latency (api w (calls w)))
        \<and> api w1 = api w \<and> draws w1 = draws w \<and> drawn w1 = drawn w
        \<and> requestCount w1 ''success'' = requestCount w ''success''
        \<and> requestCount w ''failure'' \<le> requestCount w1 ''failure''
        \<and> requestCount w1 ''failure''
            \<le> requestCount w ''failure'' + (if failure (api w (calls w)) = None then 0 else 1))"
proof -
  from beforeRequest_cases[of cb w]
  consider (o) "beforeRequest settings cb w = (Inl CircuitOpen, cb, w)"
    | (t) "beforeRequest settings cb w = (Inl TooManyRequests, cb, w)"
    | (a) g cb1 w1 where "beforeRequest settings cb w = (Inr g, cb1, w1)" "unobserved w w1"
        "requestCount w1 ''failure'' = requestCount w ''failure''"
    by blast
  then show ?thesis
  proof cases
    case o
    then show ?thesis by (simp add: Execute_def)
  next
    case t
    then show ?thesis by (simp add: Execute_def)
  next
    case a
    define r where "r = api w (calls w)"
    define w2 where "w2 = w1\<lparr>now := now w1 + int (latency r), calls := Suc (calls w1),
      trace := trace w1 @ [EvCall]\<rparr>"
    have c: "callExternalAPI w1 = ((status r, map_option OperationFailure (failure r)), w2)"
      using a(2) by (simp add: callExternalAPI_eq unobserved_def r_def w2_def)
    obtain cb3 w3 where
      f: "afterRequest settings g (failure r = None) cb1 w2 = (cb3, w3)"
      by (cases "afterRequest settings g (failure r = None) cb1 w2") blast
    have e: "Execute settings cb callExternalAPI w
        = ((Some (status r), map_option OperationFailure (failure r)), cb3, w3)"
      by (simp add: Execute_def a(1) c f)
    from afterRequest_frame[OF f] a(2,3)
    have "trace w3 = trace w @ [EvCall] \<and> calls w3 = Suc (calls w)
        \<and> now w3 = now w + int (latency r)
        \<and> api w3 = api w \<and> draws w3 = draws w \<and> drawn w3 = drawn w
        \<and> requestCount w3 ''success'' = requestCount w ''success''
        \<and> requestCount w ''failure'' \<le> requestCount w3 ''failure''
        \<and> requestCount w3 ''failure''
            \<le> requestCount w ''failure'' + (if failure r = None then 0 else 1)"
      by (auto simp: unobserved_def w2_def split: if_splits)
    with e show ?thesis unfolding r_def by blast
  qed
qed

lemma executes_append: "executes (a @ b) = executes a + executes b"
  by (induction a rule: executes.induct) simp_all

lemma sleeps_append: "sleeps (a @ b) = sleeps a @ sleeps b"
  by (induction a rule: sleeps.induct) simp_all

section \<open>What one run of the retry loop does\<close>

lemma retry_done: "\<not> i < attempts \<Longrightarrow> retry i res cb w = (res, cb, w)"
  by (simp add: retry.simps[of i])

lemma retry_success:
  assumes "i < attempts"
    and "Execute settings cb callExternalAPI (w\<lparr>trace := trace w @ [EvExecute]\<rparr>) = ((r, None), cb1, w1)"
  shows "retry i res cb w = ((r, None), cb1, Inc ''success'' w1)"
  using assms by (simp add: retry.simps[of i])

lemma retry_failure:
  assumes "i < attempts"
    and "Execute settings cb callExternalAPI (w\<lparr>trace := trace w @ [EvExecute]\<rparr>) = ((r, Some e), cb1, w1)"
  shows "retry i res cb w = retry (Suc i) (r, Some e) cb1
           (Sleep (fst (exponentialBackoff (int i) w1)) (w1\<lparr>drawn := drawn w1 + 1\<rparr>))"
  using assms exponentialBackoff_snd[of "int i" w1]
  by (auto simp: retry.simps[of i] split: prod.splits)

lemma retry_run:
  assumes "retry i res cb w = (res', cb', w')"
  shows "\<exists>evs. trace w' = trace w @ evs \<and> calls w \<le> calls w'
     \<and> requestCount w ''failure'' \<le> requestCount w' ''failure''
     \<and> (snd res' = None \<and> i < attempts \<longrightarrow>
          (\<exists>pre r. evs = pre @ [EvExecute, EvCall] \<and> fst res' = Some r
             \<and> executes pre = length (sleeps pre) \<and> executes pre < attempts - i)
          \<and> requestCount w' ''success'' = requestCount w ''success'' + 1
          \<and> requestCount w' ''failure'' + 1 \<le> requestCount w ''failure'' + (calls w' - calls w))
     \<and> (\<not> (snd res' = None \<and> i < attempts) \<longrightarrow>
          executes evs = attempts - i \<and> length (sleeps evs) = attempts - i
          \<and> requestCount w' ''success'' = requestCount w ''success''
          \<and> requestCount w' ''failure'' \<le> requestCount w ''failure'' + (calls w' - calls w)
          \<and> (i < attempts \<longrightarrow> snd res' \<noteq> None \<and> (\<exists>pre d. evs = pre @ [EvSleep d]))
          \<and> (\<not> i < attempts \<longrightarrow> res' = res \<and> evs = []))"
  using assms
proof (induction "attempts - i" arbitrary: i res cb w)
  case 0
  then have "\<not> i < attempts" by simp
  with "0.prems" show ?case by (simp add: retry_done)
next
  case (Suc n)
  then have i: "i < attempts" by simp
  define w0 where "w0 = w\<lparr>trace := trace w @ [EvExecute]\<rparr>"
  define rp where "rp = api w (calls w)"
  have w0: "trace w0 = trace w @ [EvExecute]" "calls w0 = calls w" "api w0 = api w"
    "requestCount w0 = requestCount w"
    by (simp_all add: w0_def)
  from Execute_frame[of cb w0]
  consider (rej) e where "Execute settings cb callExternalAPI w0 = ((None, Some e), cb, w0)"
    | (adm) cb1 w1 where "Execute settings cb callExternalAPI w0
          = ((Some (status rp), map_option OperationFailure (failure rp)), cb1, w1)"
        "trace w1 = trace w @ [EvExecute, EvCall]" "calls w1 = Suc (calls w)"
        "requestCount w1 ''success'' = requestCount w ''success''"
        "requestCount w ''failure'' \<le> requestCount w1 ''failure''"
        "requestCount w1 ''failure''
            \<le> requestCount w ''failure'' + (if failure rp = None then 0 else 1)"
    unfolding w0 rp_def by (auto simp: w0)
  then show ?case
  proof cases
    case rej
    define d where "d = fst (exponentialBackoff (int i) w0)"
    define w3 where "w3 = Sleep d (w0\<lparr>drawn := drawn w0 + 1\<rparr>)"
    have w3: "trace w3 = trace w @ [EvExecute, EvSleep d]" "calls w3 = calls w"
      "requestCount w3 = requestCount w"
      by (simp_all add: w3_def Sleep_def w0_def)
    have "retry i res cb w = retry (Suc i) (None, Some e) cb w3"
      using retry_failure[OF i rej[unfolded w0_def]] by (simp add: w3_def d_def w0_def)
    with Suc.prems have r: "retry (Suc i) (None, Some e) cb w3 = (res', cb', w')" by simp
    have n: "n = attempts - Suc i" using Suc.hyps(2) by simp
    from Suc.hyps(1)[OF n r] obtain evs where
      evs: "trace w' = trace w3 @ evs" "calls w3 \<le> calls w'"
        "requestCount w3 ''failure'' \<le> requestCount w' ''failure''"
      and ok: "snd res' = None \<and> Suc i < attempts \<longrightarrow>
          (\<exists>pre r. evs = pre @ [EvExecute, EvCall] \<and> fst res' = Some r
             \<and> executes pre = length (sleeps pre) \<and> executes pre < attempts - Suc i)
          \<and> requestCount w' ''success'' = requestCount w3 ''success'' + 1
          \<and> requestCount w' ''failure'' + 1 \<le> requestCount w3 ''failure'' + (calls w' - calls w3)"
      and ko: "\<not> (snd res' = None \<and> Suc i < attempts) \<longrightarrow>
          executes evs = attempts - Suc i \<and> length (sleeps evs) = attempts - Suc i
          \<and> requestCount w' ''success'' = requestCount w3 ''success''
          \<and> requestCount w' ''failure'' \<le> requestCount w3 ''failure'' + (calls w' - calls w3)
          \<and> (Suc i < attempts \<longrightarrow> snd res' \<noteq> None \<and> (\<exists>pre d. evs = pre @ [EvSleep d]))
          \<and> (\<not> Suc i < attempts \<longrightarrow> res' = (None, Some e) \<and> evs = [])"
      by blast
    define evs0 where "evs0 = [EvExecute, EvSleep d] @ evs"
    have t: "trace w' = trace w @ evs0" by (simp add: evs0_def evs(1) w3(1))
    show ?thesis
    proof (cases "snd res' = None \<and> Suc i < attempts")
      case True
      with ok obtain pre r where p: "evs = pre @ [EvExecute, EvCall]" "fst res' = Some r"
        "executes pre = length (sleeps pre)" "executes pre < attempts - Suc i"
        and m: "requestCount w' ''success'' = requestCount w3 ''success'' + 1"
          "requestCount w' ''failure'' + 1 \<le> requestCount w3 ''failure'' + (calls w' - calls w3)"
        by blast
      have "evs0 = ([EvExecute, EvSleep d] @ pre) @ [EvExecute, EvCall]"
        by (simp add: evs0_def p(1))
      moreover have "executes ([EvExecute, EvSleep d] @ pre) = length (sleeps ([EvExecute, EvSleep d] @ pre))"
        using p(3) by simp
      moreover have "executes ([EvExecute, EvSleep d] @ pre) < attempts - i"
        using p(4) by simp
      ultimately have "\<exists>pre r. evs0 = pre @ [EvExecute, EvCall] \<and> fst res' = Some r
             \<and> executes pre = length (sleeps pre) \<and> executes pre < attempts - i"
        using p(2) by blast
      with t evs m True i show ?thesis
        by (intro exI[of _ evs0]) (simp add: w3)
    next
      case False
      with ko have k: "executes evs = attempts - Suc i" "length (sleeps evs) = attempts - Suc i"
          "requestCount w' ''success'' = requestCount w3 ''success''"
          "requestCount w' ''failure'' \<le> requestCount w3 ''failure'' + (calls w' - calls w3)"
          "Suc i < attempts \<longrightarrow> snd res' \<noteq> None \<and> (\<exists>pre d. evs = pre @ [EvSleep d])"
          "\<not> Suc i < attempts \<longrightarrow> res' = (None, Some e) \<and> evs = []"
        by blast+
      have e1: "executes evs0 = attempts - i" "length (sleeps evs0) = attempts - i"
        using k(1,2) i by (simp_all add: evs0_def)
      have e2: "snd res' \<noteq> None" using k(5,6) False by (cases "Suc i < attempts") auto
      have e3: "\<exists>pre d. evs0 = pre @ [EvSleep d]"
      proof (cases "Suc i < attempts")
        case True
        with k(5) obtain pre d' where "evs = pre @ [EvSleep d']" by blast
        then have "evs0 = ([EvExecute, EvSleep d] @ pre) @ [EvSleep d']" by (simp add: evs0_def)
        then show ?thesis by blast
      next
        case False
        with k(6) have "evs0 = [EvExecute] @ [EvSleep d]" by (simp add: evs0_def)
        then show ?thesis by blast
      qed
      from t evs k(3,4) e1 e2 e3 i show ?thesis
        by (intro exI[of _ evs0]) (simp add: w3)
    qed
  next
    case adm
    show ?thesis
    proof (cases "failure rp")
      case None
      then have "Execute settings cb callExternalAPI w0 = ((Some (status rp), None), cb1, w1)"
        using adm(1) by simp
      from retry_success[OF i this[unfolded w0_def]] Suc.prems
      have r: "res' = (Some (status rp), None)" "w' = Inc ''success'' w1" by simp_all
      have "trace w' = trace w @ ([] @ [EvExecute, EvCall])"
        by (simp add: r(2) Inc_def adm(2))
      moreover have "calls w' = Suc (calls w)" by (simp add: r(2) Inc_def adm(3))
      moreover have "requestCount w' ''success'' = requestCount w ''success'' + 1"
        by (simp add: r(2) Inc_def adm(4))
      moreover have "requestCount w' ''failure'' = requestCount w ''failure''"
        using adm(5,6) None by (simp add: r(2) Inc_def)
      ultimately show ?thesis using i r(1)
        by (intro exI[of _ "[EvExecute, EvCall]"]) simp
    next
      case (Some msg)
      then have x: "Execute settings cb callExternalAPI w0
          = ((Some (status rp), Some (OperationFailure msg)), cb1, w1)"
        using adm(1) by simp
      have f1: "requestCount w1 ''failure'' \<le> requestCount w ''failure'' + 1"
        using adm(6) Some by simp
      define d where "d = fst (exponentialBackoff (int i) w1)"
      define w3 where "w3 = Sleep d (w1\<lparr>drawn := drawn w1 + 1\<rparr>)"
      have w3: "trace w3 = trace w @ [EvExecute, EvCall, EvSleep d]" "calls w3 = Suc (calls w)"
        "requestCount w3 = requestCount w1"
        by (simp_all add: w3_def Sleep_def adm(2,3))
      have "retry i res cb w = retry (Suc i) (Some (status rp), Some (OperationFailure msg)) cb1 w3"
        using retry_failure[OF i x[unfolded w0_def]] by (simp add: w3_def d_def)
      with Suc.prems
      have r: "retry (Suc i) (Some (status rp), Some (OperationFailure msg)) cb1 w3 = (res', cb', w')"
        by simp
      have n: "n = attempts - Suc i" using Suc.hyps(2) by simp
      from Suc.hyps(1)[OF n r] obtain evs where
        evs: "trace w' = trace w3 @ evs" "calls w3 \<le> calls w'"
          "requestCount w3 ''failure'' \<le> requestCount w' ''failure''"
        and ok: "snd res' = None \<and> Suc i < attempts \<longrightarrow>
            (\<exists>pre r. evs = pre @ [EvExecute, EvCall] \<and> fst res' = Some r
               \<and> executes pre = length (sleeps pre) \<and> executes pre < attempts - Suc i)
            \<and> requestCount w' ''success'' = requestCount w3 ''success'' + 1
            \<and> requestCount w' ''failure'' + 1 \<le> requestCount w3 ''failure'' + (calls w' - calls w3)"
        and ko: "\<not> (snd res' = None \<and> Suc i < attempts) \<longrightarrow>
            executes evs = attempts - Suc i \<and> length (sleeps evs) = attempts - Suc i
            \<and> requestCount w' ''success'' = requestCount w3 ''success''
            \<and> requestCount w' ''failure'' \<le> requestCount w3 ''failure'' + (calls w' - calls w3)
            \<and> (Suc i < attempts \<longrightarrow> snd res' \<noteq> None \<and> (\<exists>pre d. evs = pre @ [EvSleep d]))
            \<and> (\<not> Suc i < attempts \<longrightarrow> res' = (Some (status rp), Some (OperationFailure msg)) \<and> evs = [])"
        by blast
      define evs0 where "evs0 = [EvExecute, EvCall, EvSleep d] @ evs"
      have t: "trace w' = trace w @ evs0" by (simp add: evs0_def evs(1) w3(1))
      have c: "calls w \<le> calls w'" "calls w' - calls w = Suc (calls w' - calls w3)"
        using evs(2) w3(2) by simp_all
      have fl: "requestCount w ''failure'' \<le> requestCount w' ''failure''"
        using evs(3) adm(5) w3(3) by simp
      show ?thesis
      proof (cases "snd res' = None \<and> Suc i < attempts")
        case True
        with ok obtain pre r where p: "evs = pre @ [EvExecute, EvCall]" "fst res' = Some r"
          "executes pre = length (sleeps pre)" "executes pre < attempts - Suc i"
          and m: "requestCount w' ''success'' = requestCount w3 ''success'' + 1"
            "requestCount w' ''failure'' + 1 \<le> requestCount w3 ''failure'' + (calls w' - calls w3)"
          by blast
        have "evs0 = ([EvExecute, EvCall, EvSleep d] @ pre) @ [EvExecute, EvCall]"
          by (simp add: evs0_def p(1))
        moreover have "executes ([EvExecute, EvCall, EvSleep d] @ pre)
            = length (sleeps ([EvExecute, EvCall, EvSleep d] @ pre))"
          using p(3) by simp
        moreover have "executes ([EvExecute, EvCall, EvSleep d] @ pre) < attempts - i"
          using p(4) by simp
        ultimately have "\<exists>pre r. evs0 = pre @ [EvExecute, EvCall] \<and> fst res' = Some r
               \<and> executes pre = length (sleeps pre) \<and> executes pre < attempts - i"
          using p(2) by blast
        moreover have "requestCount w' ''failure'' + 1 \<le> requestCount w ''failure'' + (calls w' - calls w)"
          using m(2) f1 c(2) w3(3) by simp
        ultimately show ?thesis using t c(1) fl m(1) True i
          by (intro exI[of _ evs0]) (simp add: w3 adm(4))
      next
        case False
        with ko have k: "executes evs = attempts - Suc i" "length (sleeps evs) = attempts - Suc i"
            "requestCount w' ''success'' = requestCount w3 ''success''"
            "requestCount w' ''failure'' \<le> requestCount w3 ''failure'' + (calls w' - calls w3)"
            "Suc i < attempts \<longrightarrow> snd res' \<noteq> None \<and> (\<exists>pre d. evs = pre @ [EvSleep d])"
            "\<not> Suc i < attempts \<longrightarrow> res' = (Some (status rp), Some (OperationFailure msg)) \<and> evs = []"
          by blast+
        have e1: "executes evs0 = attempts - i" "length (sleeps evs0) = attempts - i"
          using k(1,2) i by (simp_all add: evs0_def)
        have e2: "snd res' \<noteq> None" using k(5,6) False by (cases "Suc i < attempts") auto
        have e3: "\<exists>pre d. evs0 = pre @ [EvSleep d]"
        proof (cases "Suc i < attempts")
          case True
          with k(5) obtain pre d' where "evs = pre @ [EvSleep d']" by blast
          then have "evs0 = ([EvExecute, EvCall, EvSleep d] @ pre) @ [EvSleep d']"
            by (simp add: evs0_def)
          then show ?thesis by blast
        next
          case False
          with k(6) have "evs0 = [EvExecute, EvCall] @ [EvSleep d]" by (simp add: evs0_def)
          then show ?thesis by blast
        qed
        have e4: "requestCount w' ''failure'' \<le> requestCount w ''failure'' + (calls w' - calls w)"
          using k(4) f1 c(2) w3(3) by simp
        from t c(1) fl k(3) e1 e2 e3 e4 i show ?thesis
          by (intro exI[of _ evs0]) (simp add: w3 adm(4))
      qed
    qed
  qed
qed

section \<open>Execute while Open and while Closed\<close>

lemma Execute_open:
  assumes "state cb = StateOpen" "expiry cb = Some e" "now w < e"
  shows "Execute settings cb req w = ((None, Some CircuitOpen), cb, w)"
  using assms by (simp add: Execute_def beforeRequest_def currentState_def)

lemma word_succ_le3: "(c :: 32 word) < 3 \<Longrightarrow> \<not> 3 < c + 1"
  by (simp add: word_less_nat_alt unat_word_ariths unat_add_lem)

lemma Execute_closed_failure:
  assumes c: "state cb = StateClosed" and f: "failure (api w (calls w)) = Some msg"
  shows "\<exists>cb1 w1. Execute settings cb callExternalAPI w
        = ((Some (status (api w (calls w))), Some (OperationFailure msg)), cb1, w1)
     \<and> trace w1 = trace w @ [EvCall] \<and> calls w1 = Suc (calls w)
     \<and> now w1 = now w + int (latency (api w (calls w)))
     \<and> api w1 = api w \<and> draws w1 = draws w \<and> drawn w1 = drawn w
     \<and> requestCount w1 ''success'' = requestCount w ''success''
     \<and> requestCount w1 ''failure'' = requestCount w ''failure'' + 1
     \<and> (ConsecutiveFailures (counts cb) < 3 \<longrightarrow> state cb1 = StateClosed
          \<and> (ConsecutiveFailures (counts cb1) = ConsecutiveFailures (counts cb) + 1
              \<or> ConsecutiveFailures (counts cb1) = 1)
          \<and> (\<forall>e. expiry cb = Some e \<and> now w < e \<longrightarrow> expiry cb1 = Some e
                \<and> ConsecutiveFailures (counts cb1) = ConsecutiveFailures (counts cb) + 1))
     \<and> (ConsecutiveFailures (counts cb) = 3 \<and> (\<exists>e. expiry cb = Some e \<and> now w < e)
          \<longrightarrow> state cb1 = StateOpen
            \<and> expiry cb1 = Some (now w + int (latency (api w (calls w))) + 30 * Second))"
proof -
  define cbA where "cbA = fst (currentState settings (now w) cb w)"
  have cs: "currentState settings (now w) cb w = (cbA, w)"
    using c by (auto simp: cbA_def currentState_def split: option.splits)
  have A: "state cbA = StateClosed" "generation cbA = generation cb"
    "ConsecutiveFailures (counts cbA) = ConsecutiveFailures (counts cb)
       \<or> ConsecutiveFailures (counts cbA) = 0"
    "\<And>e. expiry cb = Some e \<Longrightarrow> now w < e \<Longrightarrow> cbA = cb"
    using c by (auto simp: cbA_def currentState_def clear_def split: option.splits)
  define cbB where "cbB = cbA\<lparr>counts := onFailure (onRequest (counts cbA))\<rparr>"
  define w2 where "w2 = Inc ''failure'' (snd (callExternalAPI w))"
  define trip where "trip = (3 < ConsecutiveFailures (counts cbA) + 1)"
  have b: "beforeRequest settings cb w
      = (Inr (generation cb), cbA\<lparr>counts := onRequest (counts cbA)\<rparr>, w)"
    using A(1,2) by (simp add: beforeRequest_def cs)
  have a: "afterRequest settings (generation cb) False (cbA\<lparr>counts := onRequest (counts cbA)\<rparr>)
        (snd (callExternalAPI w))
      = (if trip then setState settings StateOpen (now w2) cbB w2 else (cbB, w2))"
    using A(1,2)
    by (simp add: afterRequest_def Let_def settings_def ReadyToTrip_def cbB_def w2_def trip_def
        onFailure_def onRequest_def)
  obtain cb1 w1 where r: "(if trip then setState settings StateOpen (now w2) cbB w2 else (cbB, w2)) = (cb1, w1)"
    by (cases "if trip then setState settings StateOpen (now w2) cbB w2 else (cbB, w2)") blast
  have e: "Execute settings cb callExternalAPI w
        = ((Some (status (api w (calls w))), Some (OperationFailure msg)), cb1, w1)"
    using a r f by (simp add: Execute_def b callExternalAPI_eq)
  have w2: "trace w2 = trace w @ [EvCall]" "calls w2 = Suc (calls w)"
    "now w2 = now w + int (latency (api w (calls w)))" "api w2 = api w" "draws w2 = draws w"
    "drawn w2 = drawn w" "requestCount w2 ''success'' = requestCount w ''success''"
    "requestCount w2 ''failure'' = requestCount w ''failure'' + 1"
    by (simp_all add: w2_def Inc_def callExternalAPI_eq)
  have fr: "unobserved w2 w1 \<and> requestCount w1 ''failure'' = requestCount w2 ''failure''"
  proof (cases trip)
    case True
    with r have "setState settings StateOpen (now w2) cbB w2 = (cb1, w1)" by simp
    then show ?thesis by (rule setState_frame)
  next
    case False
    with r show ?thesis by (simp add: unobserved_def)
  qed
  have B: "state cbB = StateClosed"
    "ConsecutiveFailures (counts cbB) = ConsecutiveFailures (counts cbA) + 1"
    "expiry cbB = expiry cbA"
    using A(1) by (simp_all add: cbB_def onFailure_def onRequest_def)
  have lo: "ConsecutiveFailures (counts cb) < 3 \<longrightarrow> state cb1 = StateClosed
          \<and> (ConsecutiveFailures (counts cb1) = ConsecutiveFailures (counts cb) + 1
              \<or> ConsecutiveFailures (counts cb1) = 1)
          \<and> (\<forall>e. expiry cb = Some e \<and> now w < e \<longrightarrow> expiry cb1 = Some e
                \<and> ConsecutiveFailures (counts cb1) = ConsecutiveFailures (counts cb) + 1)"
  proof
    assume l: "ConsecutiveFailures (counts cb) < 3"
    have "\<not> trip"
      using A(3) word_succ_le3[OF l] by (auto simp: trip_def)
    with r have "cb1 = cbB" by simp
    with B A(3,4) show "state cb1 = StateClosed
          \<and> (ConsecutiveFailures (counts cb1) = ConsecutiveFailures (counts cb) + 1
              \<or> ConsecutiveFailures (counts cb1) = 1)
          \<and> (\<forall>e. expiry cb = Some e \<and> now w < e \<longrightarrow> expiry cb1 = Some e
                \<and> ConsecutiveFailures (counts cb1) = ConsecutiveFailures (counts cb) + 1)"
      by auto
  qed
  have hi: "ConsecutiveFailures (counts cb) = 3 \<and> (\<exists>e. expiry cb = Some e \<and> now w < e)
          \<longrightarrow> state cb1 = StateOpen
            \<and> expiry cb1 = Some (now w + int (latency (api w (calls w))) + 30 * Second)"
  proof
    assume h: "ConsecutiveFailures (counts cb) = 3 \<and> (\<exists>e. expiry cb = Some e \<and> now w < e)"
    then have "cbA = cb" using A(4) by blast
    with h have trip by (simp add: trip_def)
    with r have "setState settings StateOpen (now w2) cbB w2 = (cb1, w1)" by simp
    then show "state cb1 = StateOpen
            \<and> expiry cb1 = Some (now w + int (latency (api w (calls w))) + 30 * Second)"
      using B(1) w2(3) by (auto simp: setState_def Let_def settings_def)
  qed
  from e w2 fr show ?thesis
    by (intro exI[of _ cb1] exI[of _ w1] conjI lo hi) (simp_all add: unobserved_def)
qed

lemma Execute_closed_success:
  assumes c: "state cb = StateClosed" and f: "failure (api w (calls w)) = None"
  shows "\<exists>cb1. Execute settings cb callExternalAPI w
        = ((Some (status (api w (calls w))), None), cb1, snd (callExternalAPI w))
     \<and> state cb1 = StateClosed \<and> ConsecutiveFailures (counts cb1) = 0"
proof -
  define cbA where "cbA = fst (currentState settings (now w) cb w)"
  have cs: "currentState settings (now w) cb w = (cbA, w)"
    using c by (auto simp: cbA_def currentState_def split: option.splits)
  have A: "state cbA = StateClosed" "generation cbA = generation cb"
    using c by (auto simp: cbA_def currentState_def split: option.splits)
  have b: "beforeRequest settings cb w
      = (Inr (generation cb), cbA\<lparr>counts := onRequest (counts cbA)\<rparr>, w)"
    using A(1,2) by (simp add: beforeRequest_def cs)
  show ?thesis
    using A f
    by (simp add: Execute_def b callExternalAPI_eq afterRequest_def onSuccess_def)
qed

section \<open>Evaluating a run\<close>

lemma exponentialBackoff_mid:
  assumes "draws w (drawn w) mod 2 ^ 53 = 2 ^ 52"
    and "0 \<le> a"
  shows "exponentialBackoff a w
     = (min (Second * 2 ^ nat a) (30 * Second) div 2, w\<lparr>drawn := drawn w + 1\<rparr>)"
  using exponentialBackoff_half[of a w] assms exponentialBackoff_snd[of a w]
  by (simp add: prod_eq_iff)

lemmas eval_defs = Execute_def beforeRequest_def currentState_def setState_def
  afterRequest_def closedExpiry_def clear_def onRequest_def onSuccess_def onFailure_def
  settings_def ReadyToTrip_def OnStateChange_def Inc_def Printf_def callExternalAPI_def Let_def
  NewCircuitBreaker_def Sleep_def world0_def failing_def flaky_def attempts_def Second_def
  apiHandler_def StatusServiceUnavailable_def

lemma exponentialBackoff_le:
  "0 \<le> fst (exponentialBackoff (int i) w) \<and> fst (exponentialBackoff (int i) w) \<le> Second * 2 ^ i"
proof -
  define M where "M = min (Second * 2 ^ i) (30 * Second)"
  have d: "backoffDelay (int i) = Fin (of_int M * pow2 0)"
    unfolding M_def using backoffDelay_nonneg[of "int i"] by (simp add: pow2_def)
  have M0: "0 \<le> M" by (simp add: M_def Second_def)
  have M1: "M \<le> 30 * Second" by (simp add: M_def)
  then have M2: "M < 2 ^ 53" "M < 2 ^ 63" by (simp_all add: Second_def)
  have "(of_int M :: rat) * pow2 0 \<le> of_int M" by (simp add: pow2_def)
  from backoff_bound[OF d M0 M2(1) _ this M2(2), of w]
  have "0 \<le> fst (exponentialBackoff (int i) w)" "fst (exponentialBackoff (int i) w) \<le> M"
    by simp_all
  moreover have "M \<le> Second * 2 ^ i" by (simp add: M_def)
  ultimately show ?thesis by simp
qed

lemma retry_open:
  assumes "state cb = StateOpen" "expiry cb = Some e" "i < attempts"
    and "now w + (16 - 2 ^ i) * Second < e"
  shows "fst (retry i res cb w) = (None, Some CircuitOpen)
     \<and> fst (snd (retry i res cb w)) = cb
     \<and> calls (snd (snd (retry i res cb w))) = calls w
     \<and> requestCount (snd (snd (retry i res cb w))) = requestCount w"
  using assms(3,4)
proof (induction "attempts - i" arbitrary: i res w)
  case 0
  then show ?case by simp
next
  case (Suc n)
  define w0 where "w0 = w\<lparr>trace := trace w @ [EvExecute]\<rparr>"
  have i4: "i \<le> 4" using Suc.prems(1) by (simp add: attempts_def)
  then have "(2::int) ^ i \<le> 2 ^ 4" by (intro power_increasing) simp_all
  then have p: "(2::int) ^ i \<le> 16" by simp
  have "0 \<le> (16 - 2 ^ i) * Second" using p by (simp add: Second_def)
  with Suc.prems(2) have "now w0 < e" by (simp add: w0_def)
  from Execute_open[OF assms(1,2) this]
  have x: "Execute settings cb callExternalAPI w0 = ((None, Some CircuitOpen), cb, w0)" .
  define d where "d = fst (exponentialBackoff (int i) w0)"
  define w3 where "w3 = Sleep d (w0\<lparr>drawn := drawn w0 + 1\<rparr>)"
  have r: "retry i res cb w = retry (Suc i) (None, Some CircuitOpen) cb w3"
    using retry_failure[OF Suc.prems(1) x[unfolded w0_def]] by (simp add: w3_def d_def w0_def)
  have w3: "calls w3 = calls w" "requestCount w3 = requestCount w" "now w3 = now w + max d 0"
    by (simp_all add: w3_def Sleep_def w0_def)
  show ?case
  proof (cases "Suc i < attempts")
    case False
    then show ?thesis by (simp add: r retry_done w3)
  next
    case True
    have n: "n = attempts - Suc i" using Suc.hyps(2) by simp
    have dle: "max d 0 \<le> Second * 2 ^ i"
      using exponentialBackoff_le[of i w0] by (simp add: d_def Second_def)
    have "now w3 + (16 - 2 ^ Suc i) * Second \<le> now w + (16 - 2 ^ i) * Second"
      using dle by (simp add: w3(3) Second_def)
    with Suc.prems(2) have t: "now w3 + (16 - 2 ^ Suc i) * Second < e" by simp
    from Suc.hyps(1)[OF n True t, of "(None, Some CircuitOpen)"] show ?thesis
      by (simp add: r w3)
  qed
qed

section \<open>The retry loop\<close>

lemma retry_calls:
  "calls (snd (snd (retry i res cb w))) \<le> calls w + (attempts - i)"
proof (induction "attempts - i" arbitrary: i res cb w)
  case 0
  then have "\<not> i < attempts" by simp
  then show ?case by (simp add: retry_done)
next
  case (Suc n)
  then have i: "i < attempts" by simp
  define w0 where "w0 = w\<lparr>trace := trace w @ [EvExecute]\<rparr>"
  obtain r err cb1 w1 where x: "Execute settings cb callExternalAPI w0 = ((r, err), cb1, w1)"
    by (cases "Execute settings cb callExternalAPI w0") auto
  have c: "calls w1 \<le> Suc (calls w)"
    using Execute_frame[of cb w0] x by (auto simp: w0_def)
  show ?case
  proof (cases err)
    case None
    with retry_success[OF i, of cb w r cb1 w1 res] x
    have "retry i res cb w = ((r, None), cb1, Inc ''success'' w1)" by (simp add: w0_def)
    with c i show ?thesis by (simp add: Inc_def)
  next
    case (Some e)
    define w3 where "w3 = Sleep (fst (exponentialBackoff (int i) w1)) (w1\<lparr>drawn := drawn w1 + 1\<rparr>)"
    from Some retry_failure[OF i, of cb w r e cb1 w1 res] x
    have r: "retry i res cb w = retry (Suc i) (r, Some e) cb1 w3" by (simp add: w0_def w3_def)
    have n: "n = attempts - Suc i" using Suc.hyps(2) by simp
    have "calls w3 = calls w1" by (simp add: w3_def Sleep_def)
    with Suc.hyps(1)[OF n, of "(r, Some e)" cb1 w3] c i show ?thesis
      by (simp add: r)
  qed
qed

lemma retry_trace_summary:
  "\<exists>evs. trace (snd (snd (retry 0 (None, None) cb w))) = trace w @ evs
     \<and> executes evs \<le> 5
     \<and> (snd (fst (retry 0 (None, None) cb w)) = None \<longrightarrow>
         (\<exists>pre r. evs = pre @ [EvExecute, EvCall]
            \<and> fst (fst (retry 0 (None, None) cb w)) = Some r
            \<and> length (sleeps pre) = executes pre
            \<and> length (sleeps evs) + 1 = executes evs))"
proof -
  obtain res' cb' w' where r: "retry 0 (None, None) cb w = (res', cb', w')"
    by (cases "retry 0 (None, None) cb w") blast
  have a: "0 < attempts" "attempts - 0 = 5" by (simp_all add: attempts_def)
  from retry_run[OF r] obtain evs where
    t: "trace w' = trace w @ evs"
    and ok: "snd res' = None \<and> 0 < attempts \<longrightarrow>
          (\<exists>pre r. evs = pre @ [EvExecute, EvCall] \<and> fst res' = Some r
             \<and> executes pre = length (sleeps pre) \<and> executes pre < attempts - 0)
          \<and> requestCount w' ''success'' = requestCount w ''success'' + 1
          \<and> requestCount w' ''failure'' + 1 \<le> requestCount w ''failure'' + (calls w' - calls w)"
    and ko: "\<not> (snd res' = None \<and> 0 < attempts) \<longrightarrow>
          executes evs = attempts - 0 \<and> length (sleeps evs) = attempts - 0
          \<and> requestCount w' ''success'' = requestCount w ''success''
          \<and> requestCount w' ''failure'' \<le> requestCount w ''failure'' + (calls w' - calls w)
          \<and> (0 < attempts \<longrightarrow> snd res' \<noteq> None \<and> (\<exists>pre d. evs = pre @ [EvSleep d]))
          \<and> (\<not> 0 < attempts \<longrightarrow> res' = (None, None) \<and> evs = [])"
    by (elim exE conjE)
  have p1: "trace (snd (snd (retry 0 (None, None) cb w))) = trace w @ evs"
    by (simp add: r t)
  show ?thesis
  proof (cases "snd res' = None")
    case True
    with ok a(1) have "\<exists>pre r. evs = pre @ [EvExecute, EvCall] \<and> fst res' = Some r
             \<and> executes pre = length (sleeps pre) \<and> executes pre < attempts - 0"
      by (elim impE conjE) (rule conjI)
    then obtain pre v where p: "evs = pre @ [EvExecute, EvCall]" "fst res' = Some v"
      "executes pre = length (sleeps pre)" "executes pre < attempts - 0"
      by (elim exE conjE)
    have e5: "executes evs \<le> 5"
      using p(4) by (simp add: p(1) executes_append attempts_def)
    have sl: "length (sleeps evs) + 1 = executes evs"
      using p(3) by (simp add: p(1) executes_append sleeps_append)
    have "evs = pre @ [EvExecute, EvCall]
            \<and> fst (fst (retry 0 (None, None) cb w)) = Some v
            \<and> length (sleeps pre) = executes pre
            \<and> length (sleeps evs) + 1 = executes evs"
      using p(1,2,3) sl by (simp add: r)
    then have q: "\<exists>pre r. evs = pre @ [EvExecute, EvCall]
            \<and> fst (fst (retry 0 (None, None) cb w)) = Some r
            \<and> length (sleeps pre) = executes pre
            \<and> length (sleeps evs) + 1 = executes evs"
      by (intro exI)
    have "trace (snd (snd (retry 0 (None, None) cb w))) = trace w @ evs
     \<and> executes evs \<le> 5
     \<and> (snd (fst (retry 0 (None, None) cb w)) = None \<longrightarrow>
         (\<exists>pre r. evs = pre @ [EvExecute, EvCall]
            \<and> fst (fst (retry 0 (None, None) cb w)) = Some r
            \<and> length (sleeps pre) = executes pre
            \<and> length (sleeps evs) + 1 = executes evs))"
      using p1 e5 q by (intro conjI impI)
    then show ?thesis by (rule exI)
  next
    case False
    with ko have "executes evs = attempts - 0" by simp
    then have e5: "executes evs \<le> 5" by (simp add: attempts_def)
    have n: "snd (fst (retry 0 (None, None) cb w)) \<noteq> None" using False by (simp add: r)
    have "trace (snd (snd (retry 0 (None, None) cb w))) = trace w @ evs
     \<and> executes evs \<le> 5
     \<and> (snd (fst (retry 0 (None, None) cb w)) = None \<longrightarrow>
         (\<exists>pre r. evs = pre @ [EvExecute, EvCall]
            \<and> fst (fst (retry 0 (None, None) cb w)) = Some r
            \<and> length (sleeps pre) = executes pre
            \<and> length (sleeps evs) + 1 = executes evs))"
      using p1 e5 n by (intro conjI impI) simp_all
    then show ?thesis by (rule exI)
  qed
qed

text \<open>
  C2. A call of \<open>Execute\<close> that returns no error ends the loop at once: the loop returns
  what that call returned and leaves the breaker and the world as that call left them, but for
  the count of one success, so that nothing is called and nothing is slept after it. A call
  that returns an error is followed by one sleep and the next round; from round five on the
  loop calls nothing. So one run calls \<open>Execute\<close> at most five times, which shows in the trace
  and in the number of calls of the operation; and when a run ends in success the trace ends
  with the successful call, with one sleep less than calls of \<open>Execute\<close>.
\<close>

theorem retry_stops_at_first_success:
  "(i < attempts
      \<and> Execute settings cb callExternalAPI (w\<lparr>trace := trace w @ [EvExecute]\<rparr>)
          = ((r, None), cba, wa)
      \<longrightarrow> retry i res cb w = ((r, None), cba, Inc ''success'' wa))
   \<and> (k < attempts
      \<and> Execute settings cbf callExternalAPI (wx\<lparr>trace := trace wx @ [EvExecute]\<rparr>)
          = ((rf, Some err), cbg, wg)
      \<longrightarrow> retry k resf cbf wx = retry (Suc k) (rf, Some err) cbg
            (Sleep (fst (exponentialBackoff (int k) wg)) (snd (exponentialBackoff (int k) wg))))
   \<and> (attempts \<le> j \<longrightarrow> retry j resj cbj wj = (resj, cbj, wj))
   \<and> attempts = 5
   \<and> calls (snd (snd (retry 0 (None, None) cbr wr))) \<le> calls wr + 5
   \<and> (\<exists>evs. trace (snd (snd (retry 0 (None, None) cbr wr))) = trace wr @ evs
        \<and> executes evs \<le> 5
        \<and> (snd (fst (retry 0 (None, None) cbr wr)) = None \<longrightarrow>
            (\<exists>pre r. evs = pre @ [EvExecute, EvCall]
               \<and> fst (fst (retry 0 (None, None) cbr wr)) = Some r
               \<and> length (sleeps pre) = executes pre
               \<and> length (sleeps evs) + 1 = executes evs)))"
proof (intro conjI impI)
  assume "i < attempts
      \<and> Execute settings cb callExternalAPI (w\<lparr>trace := trace w @ [EvExecute]\<rparr>)
          = ((r, None), cba, wa)"
  then show "retry i res cb w = ((r, None), cba, Inc ''success'' wa)"
    using retry_success[of i cb w r cba wa res] by (elim conjE)
next
  assume "k < attempts
      \<and> Execute settings cbf callExternalAPI (wx\<lparr>trace := trace wx @ [EvExecute]\<rparr>)
          = ((rf, Some err), cbg, wg)"
  then show "retry k resf cbf wx = retry (Suc k) (rf, Some err) cbg
            (Sleep (fst (exponentialBackoff (int k) wg)) (snd (exponentialBackoff (int k) wg)))"
    using retry_failure[of k cbf wx rf err cbg wg resf]
    by (elim conjE) (simp only: exponentialBackoff_snd)
next
  assume "attempts \<le> j"
  then show "retry j resj cbj wj = (resj, cbj, wj)" by (simp add: retry_done)
next
  show "attempts = 5" by (simp add: attempts_def)
next
  show "calls (snd (snd (retry 0 (None, None) cbr wr))) \<le> calls wr + 5"
    using retry_calls[of 0 "(None, None)" cbr wr] by (simp add: attempts_def)
next
  show "\<exists>evs. trace (snd (snd (retry 0 (None, None) cbr wr))) = trace wr @ evs
        \<and> executes evs \<le> 5
        \<and> (snd (fst (retry 0 (None, None) cbr wr)) = None \<longrightarrow>
            (\<exists>pre r. evs = pre @ [EvExecute, EvCall]
               \<and> fst (fst (retry 0 (None, None) cbr wr)) = Some r
               \<and> length (sleeps pre) = executes pre
               \<and> length (sleeps evs) + 1 = executes evs))"
    by (rule retry_trace_summary)
qed

theorem retry_stops_at_first_success_witness:
  "(0::nat) < attempts
   \<and> fst (Execute settings (NewCircuitBreaker settings (world0 flaky)) callExternalAPI
          (world0 flaky\<lparr>calls := 2, trace := [EvExecute]\<rparr>)) = (Some 200, None)
   \<and> retry 0 (None, None) (NewCircuitBreaker settings (world0 flaky)) (world0 flaky\<lparr>calls := 2\<rparr>)
       = ((Some 200, None),
          fst (snd (Execute settings (NewCircuitBreaker settings (world0 flaky)) callExternalAPI
             (world0 flaky\<lparr>calls := 2, trace := [EvExecute]\<rparr>))),
          Inc ''success'' (snd (snd (Execute settings (NewCircuitBreaker settings (world0 flaky))
             callExternalAPI (world0 flaky\<lparr>calls := 2, trace := [EvExecute]\<rparr>)))))
   \<and> fst (Execute settings (NewCircuitBreaker settings (world0 flaky)) callExternalAPI
          (world0 flaky\<lparr>trace := [EvExecute]\<rparr>))
       = (Some 0, Some (OperationFailure ''simulated failure''))
   \<and> retry 0 (None, None) (NewCircuitBreaker settings (world0 flaky)) (world0 flaky)
       = retry (Suc 0) (Some 0, Some (OperationFailure ''simulated failure''))
           (fst (snd (Execute settings (NewCircuitBreaker settings (world0 flaky)) callExternalAPI
              (world0 flaky\<lparr>trace := [EvExecute]\<rparr>))))
           (Sleep (fst (exponentialBackoff (int 0)
                 (snd (snd (Execute settings (NewCircuitBreaker settings (world0 flaky))
                    callExternalAPI (world0 flaky\<lparr>trace := [EvExecute]\<rparr>))))))
              (snd (exponentialBackoff (int 0)
                 (snd (snd (Execute settings (NewCircuitBreaker settings (world0 flaky))
                    callExternalAPI (world0 flaky\<lparr>trace := [EvExecute]\<rparr>)))))))
   \<and> attempts \<le> 5
   \<and> retry 5 (None, None) (NewCircuitBreaker settings (world0 flaky)) (world0 flaky)
       = ((None, None), NewCircuitBreaker settings (world0 flaky), world0 flaky)
   \<and> snd (fst (retry 0 (None, None) (NewCircuitBreaker settings (world0 flaky)) (world0 flaky)))
       = None
   \<and> (\<exists>evs. trace (snd (snd (retry 0 (None, None) (NewCircuitBreaker settings (world0 flaky))
                 (world0 flaky)))) = trace (world0 flaky) @ evs
        \<and> executes evs \<le> 5
        \<and> (\<exists>pre r. evs = pre @ [EvExecute, EvCall]
            \<and> fst (fst (retry 0 (None, None) (NewCircuitBreaker settings (world0 flaky))
                 (world0 flaky))) = Some r
            \<and> length (sleeps pre) = executes pre
            \<and> length (sleeps evs) + 1 = executes evs))"
proof -
  let ?cb = "NewCircuitBreaker settings (world0 flaky)"
  let ?ws = "world0 flaky\<lparr>calls := 2\<rparr>" and ?wq = "world0 flaky"
  let ?X = "Execute settings ?cb callExternalAPI (world0 flaky\<lparr>calls := 2, trace := [EvExecute]\<rparr>)"
  let ?Y = "Execute settings ?cb callExternalAPI (world0 flaky\<lparr>trace := [EvExecute]\<rparr>)"
  have ts: "?ws\<lparr>trace := trace ?ws @ [EvExecute]\<rparr> = world0 flaky\<lparr>calls := 2, trace := [EvExecute]\<rparr>"
    and tf: "?wq\<lparr>trace := trace ?wq @ [EvExecute]\<rparr> = world0 flaky\<lparr>trace := [EvExecute]\<rparr>"
    by (simp_all add: world0_def)
  have a: "(0::nat) < attempts" and a5: "attempts \<le> 5" by (simp_all add: attempts_def)
  have fx: "fst ?X = (Some 200, None)" by (simp add: eval_defs)
  have fy: "fst ?Y = (Some 0, Some (OperationFailure ''simulated failure''))"
    by (simp add: eval_defs)
  have hx: "Execute settings ?cb callExternalAPI (?ws\<lparr>trace := trace ?ws @ [EvExecute]\<rparr>)
      = ((Some 200, None), fst (snd ?X), snd (snd ?X))"
    unfolding ts using fx by (simp add: prod_eq_iff)
  have hy: "Execute settings ?cb callExternalAPI (?wq\<lparr>trace := trace ?wq @ [EvExecute]\<rparr>)
      = ((Some 0, Some (OperationFailure ''simulated failure'')), fst (snd ?Y), snd (snd ?Y))"
    unfolding tf using fy by (simp add: prod_eq_iff)
  note T = retry_stops_at_first_success[where i = 0 and cb = ?cb and w = ?ws and r = "Some 200"
      and cba = "fst (snd ?X)" and wa = "snd (snd ?X)" and res = "(None, None)"
      and k = 0 and cbf = ?cb and wx = ?wq and rf = "Some 0"
      and err = "OperationFailure ''simulated failure''"
      and cbg = "fst (snd ?Y)" and wg = "snd (snd ?Y)" and resf = "(None, None)"
      and j = 5 and resj = "(None, None)" and cbj = ?cb and wj = ?wq
      and cbr = ?cb and wr = ?wq]
  have c1: "retry 0 (None, None) ?cb ?ws = ((Some 200, None), fst (snd ?X), Inc ''success'' (snd (snd ?X)))"
    using T[THEN conjunct1] a hx by (elim impE) (intro conjI)
  have c2: "retry 0 (None, None) ?cb ?wq
      = retry (Suc 0) (Some 0, Some (OperationFailure ''simulated failure'')) (fst (snd ?Y))
          (Sleep (fst (exponentialBackoff (int 0) (snd (snd ?Y))))
             (snd (exponentialBackoff (int 0) (snd (snd ?Y)))))"
    using T[THEN conjunct2, THEN conjunct1] a hy by (elim impE) (intro conjI)
  have c3: "retry 5 (None, None) ?cb ?wq = ((None, None), ?cb, ?wq)"
    using T[THEN conjunct2, THEN conjunct2, THEN conjunct1] a5 by (rule mp)
  have s: "snd (fst (retry 0 (None, None) ?cb ?wq)) = None"
    by (simp add: retry.simps exponentialBackoff_mid eval_defs)
  from T[THEN conjunct2, THEN conjunct2, THEN conjunct2, THEN conjunct2, THEN conjunct2] s
  have c6: "\<exists>evs. trace (snd (snd (retry 0 (None, None) ?cb ?wq))) = trace ?wq @ evs
        \<and> executes evs \<le> 5
        \<and> (\<exists>pre r. evs = pre @ [EvExecute, EvCall]
            \<and> fst (fst (retry 0 (None, None) ?cb ?wq)) = Some r
            \<and> length (sleeps pre) = executes pre
            \<and> length (sleeps evs) + 1 = executes evs)"
    by blast
  from a fx c1 fy c2 a5 c3 s c6 show ?thesis by (intro conjI)
qed

text \<open>
  C3. With an operation that fails on every call and a new breaker, the handler sleeps five
  times: the fifth sleep, of eight seconds here, comes after the fifth and last call of
  \<open>Execute\<close>, and only then is the failure answered.
\<close>

theorem sleep_after_last_failed_attempt:
  "trace (snd (snd (apiHandler (NewCircuitBreaker settings (world0 failing)) (world0 failing))))
   = [EvExecute, EvCall, EvSleep 500000000, EvExecute, EvCall, EvSleep 1000000000,
      EvExecute, EvCall, EvSleep 2000000000, EvExecute, EvCall, EvSleep 4000000000,
      EvExecute, EvSleep 8000000000]
   \<and> fst (apiHandler (NewCircuitBreaker settings (world0 failing)) (world0 failing))
     = [HttpError ''Service Unavailable'' 503]
   \<and> now (snd (snd (apiHandler (NewCircuitBreaker settings (world0 failing)) (world0 failing))))
     = 15500000000"
  by (simp add: retry.simps exponentialBackoff_mid eval_defs)

text \<open>
  C5. Every failure that \<open>Execute\<close> returns, of whatever kind, sends the loop to its next
  round after one backoff sleep. So a run that ends in failure has called \<open>Execute\<close> five
  times and slept five times; and when the breaker is Open and stays Open for the fifteen
  seconds that four sleeps can take, the five attempts are five rejections: the run ends
  with the open-circuit failure and the operation was never called.
\<close>

theorem every_error_consumes_an_attempt:
  "(i < attempts \<and> Execute settings cb callExternalAPI (w\<lparr>trace := trace w @ [EvExecute]\<rparr>)
        = ((r, Some err), cb1, w1)
      \<longrightarrow> retry i res cb w = retry (Suc i) (r, Some err) cb1
            (Sleep (fst (exponentialBackoff (int i) w1)) (w1\<lparr>drawn := drawn w1 + 1\<rparr>)))
   \<and> (snd (fst (retry 0 (None, None) cb w)) \<noteq> None \<longrightarrow>
        (\<exists>evs. trace (snd (snd (retry 0 (None, None) cb w))) = trace w @ evs
           \<and> executes evs = 5 \<and> length (sleeps evs) = 5))
   \<and> (state cb = StateOpen \<and> expiry cb = Some e \<and> now w + 15 * Second < e \<longrightarrow>
        fst (retry 0 (None, None) cb w) = (None, Some CircuitOpen)
        \<and> calls (snd (snd (retry 0 (None, None) cb w))) = calls w)"
proof (intro conjI impI)
  assume "i < attempts \<and> Execute settings cb callExternalAPI (w\<lparr>trace := trace w @ [EvExecute]\<rparr>)
        = ((r, Some err), cb1, w1)"
  then show "retry i res cb w = retry (Suc i) (r, Some err) cb1
            (Sleep (fst (exponentialBackoff (int i) w1)) (w1\<lparr>drawn := drawn w1 + 1\<rparr>))"
    using retry_failure[of i cb w r err cb1 w1 res] by blast
next
  assume f: "snd (fst (retry 0 (None, None) cb w)) \<noteq> None"
  obtain res' cb' w' where r: "retry 0 (None, None) cb w = (res', cb', w')"
    by (cases "retry 0 (None, None) cb w") blast
  from retry_run[OF r] obtain evs where
    t: "trace w' = trace w @ evs"
    and ko: "\<not> (snd res' = None \<and> 0 < attempts) \<longrightarrow>
          executes evs = attempts - 0 \<and> length (sleeps evs) = attempts - 0
          \<and> requestCount w' ''success'' = requestCount w ''success''
          \<and> requestCount w' ''failure'' \<le> requestCount w ''failure'' + (calls w' - calls w)
          \<and> (0 < attempts \<longrightarrow> snd res' \<noteq> None \<and> (\<exists>pre d. evs = pre @ [EvSleep d]))
          \<and> (\<not> 0 < attempts \<longrightarrow> res' = (None, None) \<and> evs = [])"
    by (elim exE conjE)
  from f have "snd res' \<noteq> None" by (simp add: r)
  with ko have "executes evs = 5" "length (sleeps evs) = 5" by (simp_all add: attempts_def)
  with t have "trace (snd (snd (retry 0 (None, None) cb w))) = trace w @ evs
           \<and> executes evs = 5 \<and> length (sleeps evs) = 5"
    by (simp add: r)
  then show "\<exists>evs. trace (snd (snd (retry 0 (None, None) cb w))) = trace w @ evs
           \<and> executes evs = 5 \<and> length (sleeps evs) = 5"
    by (rule exI)
next
  assume o: "state cb = StateOpen \<and> expiry cb = Some e \<and> now w + 15 * Second < e"
  then have "now w + (16 - 2 ^ 0) * Second < e" by simp
  from retry_open[OF _ _ _ this, of cb "(None, None)"] o
  have "fst (retry 0 (None, None) cb w) = (None, Some CircuitOpen)
     \<and> fst (snd (retry 0 (None, None) cb w)) = cb
     \<and> calls (snd (snd (retry 0 (None, None) cb w))) = calls w
     \<and> requestCount (snd (snd (retry 0 (None, None) cb w))) = requestCount w"
    by (simp add: attempts_def)
  then show "fst (retry 0 (None, None) cb w) = (None, Some CircuitOpen)"
    and "calls (snd (snd (retry 0 (None, None) cb w))) = calls w"
    by simp_all
qed


text \<open>
  C9. Evaluating \<open>ReadyToTrip\<close> returns whether \<open>ConsecutiveFailures\<close> exceeds 3 and leaves
  the world changed: the counter labelled \<open>failure\<close> is one higher. The breaker evaluates it
  once for a failed call that it counts while Closed, so such a call of \<open>Execute\<close> raises that
  counter by exactly one.
\<close>

theorem ReadyToTrip_increments_failure:
  "ReadyToTrip cnts w
     = (3 < ConsecutiveFailures cnts,
        w\<lparr>requestCount := (requestCount w)(''failure'' := requestCount w ''failure'' + 1)\<rparr>)
   \<and> (state cb = StateClosed \<and> failure (api w (calls w)) = Some msg \<longrightarrow>
        requestCount (snd (snd (Execute settings cb callExternalAPI w))) ''failure''
          = requestCount w ''failure'' + 1)"
proof (intro conjI impI)
  show "ReadyToTrip cnts w
     = (3 < ConsecutiveFailures cnts,
        w\<lparr>requestCount := (requestCount w)(''failure'' := requestCount w ''failure'' + 1)\<rparr>)"
    by (simp add: ReadyToTrip_def Inc_def)
next
  assume "state cb = StateClosed \<and> failure (api w (calls w)) = Some msg"
  then have c: "state cb = StateClosed" and f: "failure (api w (calls w)) = Some msg" by simp_all
  from Execute_closed_failure[OF c f] obtain cb1 w1 where
    "Execute settings cb callExternalAPI w
        = ((Some (status (api w (calls w))), Some (OperationFailure msg)), cb1, w1)"
    "requestCount w1 ''failure'' = requestCount w ''failure'' + 1"
    by (elim exE conjE)
  then show "requestCount (snd (snd (Execute settings cb callExternalAPI w))) ''failure''
          = requestCount w ''failure'' + 1"
    by simp
qed

theorem ReadyToTrip_increments_failure_witness:
  "state (NewCircuitBreaker settings (world0 failing)) = StateClosed
   \<and> failure (api (world0 failing) (calls (world0 failing))) = Some ''simulated failure''
   \<and> requestCount (world0 failing) ''failure'' = 0
   \<and> requestCount (snd (snd (Execute settings (NewCircuitBreaker settings (world0 failing))
        callExternalAPI (world0 failing)))) ''failure'' = 1
   \<and> fst (ReadyToTrip (clear\<lparr>ConsecutiveFailures := 4\<rparr>) (world0 failing)) = True
   \<and> requestCount (snd (ReadyToTrip (clear\<lparr>ConsecutiveFailures := 4\<rparr>) (world0 failing))) ''failure'' = 1"
  using ReadyToTrip_increments_failure[of "clear\<lparr>ConsecutiveFailures := 4\<rparr>" "world0 failing"
      "NewCircuitBreaker settings (world0 failing)" "''simulated failure''"]
  by (simp add: NewCircuitBreaker_def world0_def failing_def clear_def)

lemma feed_4: "feed 4 cb w = feed (Suc (Suc (Suc (Suc 0)))) cb w"
  by (simp add: eval_nat_numeral)

lemma tripped_eval:
  "state (fst tripped) = StateOpen" "expiry (fst tripped) = Some (30 * Second)"
  "now (snd tripped) = 0" "calls (snd tripped) = 4" "trace (snd tripped) = [EvCall, EvCall, EvCall, EvCall]"
  "requestCount (snd tripped) ''failure'' = 4" "requestCount (snd tripped) ''success'' = 0"
  "requestCount (snd tripped) ''open'' = 1"
  by (simp_all add: tripped_def feed_4 eval_defs)

theorem every_error_consumes_an_attempt_witness:
  "(0::nat) < attempts
   \<and> Execute settings (fst tripped) callExternalAPI
        ((snd tripped)\<lparr>trace := trace (snd tripped) @ [EvExecute]\<rparr>)
      = ((None, Some CircuitOpen), fst tripped,
         (snd tripped)\<lparr>trace := trace (snd tripped) @ [EvExecute]\<rparr>)
   \<and> snd (fst (retry 0 (None, None) (fst tripped) (snd tripped))) \<noteq> None
   \<and> state (fst tripped) = StateOpen \<and> expiry (fst tripped) = Some (30 * Second)
   \<and> now (snd tripped) + 15 * Second < 30 * Second
   \<and> fst (retry 0 (None, None) (fst tripped) (snd tripped)) = (None, Some CircuitOpen)
   \<and> calls (snd (snd (retry 0 (None, None) (fst tripped) (snd tripped)))) = 4
   \<and> (\<exists>evs. trace (snd (snd (retry 0 (None, None) (fst tripped) (snd tripped))))
          = trace (snd tripped) @ evs \<and> executes evs = 5 \<and> length (sleeps evs) = 5)"
proof -
  let ?cb = "fst tripped" and ?w = "snd tripped"
  let ?v = "?w\<lparr>trace := trace ?w @ [EvExecute]\<rparr>"
  let ?R = "retry 0 (None, None) ?cb ?w"
  have t: "now ?w + 15 * Second < 30 * Second"
    by (simp add: tripped_eval Second_def)
  have x: "Execute settings ?cb callExternalAPI ?v = ((None, Some CircuitOpen), ?cb, ?v)"
    by (rule Execute_open[OF tripped_eval(1,2)]) (simp add: tripped_eval Second_def)
  have a: "(0::nat) < attempts" by (simp add: attempts_def)
  note T = every_error_consumes_an_attempt[of 0 ?cb ?w None CircuitOpen ?cb ?v
      "(None, None)" "30 * Second"]
  have "state ?cb = StateOpen \<and> expiry ?cb = Some (30 * Second) \<and> now ?w + 15 * Second < 30 * Second"
    using tripped_eval(1,2) t by (intro conjI)
  with T[THEN conjunct2, THEN conjunct2]
  have oc: "fst ?R = (None, Some CircuitOpen) \<and> calls (snd (snd ?R)) = calls ?w"
    by (rule mp)
  then have o: "fst ?R = (None, Some CircuitOpen)" and c: "calls (snd (snd ?R)) = calls ?w"
    by (rule conjunct1, rule conjunct2)
  from o have f: "snd (fst ?R) \<noteq> None" by simp
  with T[THEN conjunct2, THEN conjunct1]
  have e: "\<exists>evs. trace (snd (snd ?R)) = trace ?w @ evs
      \<and> executes evs = 5 \<and> length (sleeps evs) = 5"
    by (rule mp)
  from c have c4: "calls (snd (snd ?R)) = 4" by (simp only: tripped_eval(4))
  from a x f tripped_eval(1,2) t o c4 e show ?thesis by (intro conjI)
qed

section \<open>The breaker trips at the fourth failure\<close>





section \<open>Two failures, then a success\<close>

lemma word_lt2: "(c :: 32 word) < 2 \<Longrightarrow> c < 3 \<and> c + 1 < 3"
  by unat_arith

lemma word_1_lt3: "(1 :: 32 word) < 3"
  by simp

lemma exponentialBackoff_fst_cong:
  assumes "draws w' = draws w" "drawn w' = drawn w"
  shows "fst (exponentialBackoff a w') = fst (exponentialBackoff a w)"
  using assms by (simp add: exponentialBackoff_fst rand_Float64_def)

lemma closed_failure_keep:
  assumes c: "state cb = StateClosed" and f: "failure (api w (calls w)) = Some msg"
    and l: "ConsecutiveFailures (counts cb) < 3"
  shows "\<exists>cb1 w1. Execute settings cb callExternalAPI w
        = ((Some (status (api w (calls w))), Some (OperationFailure msg)), cb1, w1)
     \<and> trace w1 = trace w @ [EvCall] \<and> calls w1 = Suc (calls w)
     \<and> api w1 = api w \<and> draws w1 = draws w \<and> drawn w1 = drawn w
     \<and> requestCount w1 ''success'' = requestCount w ''success''
     \<and> requestCount w1 ''failure'' = requestCount w ''failure'' + 1
     \<and> state cb1 = StateClosed
     \<and> (ConsecutiveFailures (counts cb1) = ConsecutiveFailures (counts cb) + 1
          \<or> ConsecutiveFailures (counts cb1) = 1)"
proof -
  from Execute_closed_failure[OF c f] obtain cb1 w1 where
    x: "Execute settings cb callExternalAPI w
        = ((Some (status (api w (calls w))), Some (OperationFailure msg)), cb1, w1)"
    and w1: "trace w1 = trace w @ [EvCall]" "calls w1 = Suc (calls w)"
    and "now w1 = now w + int (latency (api w (calls w)))"
    and w1': "api w1 = api w" "draws w1 = draws w" "drawn w1 = drawn w"
      "requestCount w1 ''success'' = requestCount w ''success''"
      "requestCount w1 ''failure'' = requestCount w ''failure'' + 1"
    and lo: "ConsecutiveFailures (counts cb) < 3 \<longrightarrow> state cb1 = StateClosed
          \<and> (ConsecutiveFailures (counts cb1) = ConsecutiveFailures (counts cb) + 1
              \<or> ConsecutiveFailures (counts cb1) = 1)
          \<and> (\<forall>e. expiry cb = Some e \<and> now w < e \<longrightarrow> expiry cb1 = Some e
                \<and> ConsecutiveFailures (counts cb1) = ConsecutiveFailures (counts cb) + 1)"
    and "ConsecutiveFailures (counts cb) = 3 \<and> (\<exists>e. expiry cb = Some e \<and> now w < e)
          \<longrightarrow> state cb1 = StateOpen
            \<and> expiry cb1 = Some (now w + int (latency (api w (calls w))) + 30 * Second)"
    by (elim exE conjE)
  from lo l have "state cb1 = StateClosed"
    "ConsecutiveFailures (counts cb1) = ConsecutiveFailures (counts cb) + 1
          \<or> ConsecutiveFailures (counts cb1) = 1"
    by blast+
  with x w1 w1' show ?thesis by blast
qed

text \<open>
  C6. On a breaker that is Closed with fewer than two failures in a row counted, as a new
  breaker is, when the operation fails at its first two calls and succeeds at the third, the
  loop returns the result of the third call after three calls of \<open>Execute\<close>, each of which
  called the operation, with two sleeps, of \<open>exponentialBackoff 0\<close> and \<open>exponentialBackoff 1\<close>,
  between them and none after; the handler answers with that result, one success and two
  failures are counted, and the breaker is still Closed.
\<close>

theorem succeeds_on_third_attempt:
  assumes c: "state cb = StateClosed" and l: "ConsecutiveFailures (counts cb) < 2"
    and f0: "failure (api w (calls w)) \<noteq> None"
    and f1: "failure (api w (calls w + 1)) \<noteq> None"
    and f2: "failure (api w (calls w + 2)) = None"
  shows "fst (retry 0 (None, None) cb w) = (Some (status (api w (calls w + 2))), None)
     \<and> trace (snd (snd (apiHandler cb w)))
        = trace w @ [EvExecute, EvCall, EvSleep (fst (exponentialBackoff 0 w)),
                     EvExecute, EvCall,
                     EvSleep (fst (exponentialBackoff 1 (w\<lparr>drawn := drawn w + 1\<rparr>))),
                     EvExecute, EvCall]
     \<and> fst (apiHandler cb w)
        = [Write (''Request succeeded: '' @ fmt_v (Some (status (api w (calls w + 2)))))]
     \<and> calls (snd (snd (apiHandler cb w))) = calls w + 3
     \<and> requestCount (snd (snd (apiHandler cb w))) ''success'' = requestCount w ''success'' + 1
     \<and> requestCount (snd (snd (apiHandler cb w))) ''failure'' = requestCount w ''failure'' + 2
     \<and> state (fst (snd (apiHandler cb w))) = StateClosed"
proof -
  obtain m0 m1 where m: "failure (api w (calls w)) = Some m0"
    "failure (api w (Suc (calls w))) = Some m1" "failure (api w (Suc (Suc (calls w)))) = None"
    using f0 f1 f2 by (auto simp: numeral_2_eq_2)
  have a: "0 < attempts" "Suc 0 < attempts" "Suc (Suc 0) < attempts" by (simp_all add: attempts_def)
  \<comment> \<open>first round\<close>
  define v0 where "v0 = w\<lparr>trace := trace w @ [EvExecute]\<rparr>"
  have m0': "failure (api v0 (calls v0)) = Some m0" by (simp add: v0_def m(1))
  from closed_failure_keep[OF c m0' conjunct1[OF word_lt2[OF l]]] obtain cb1 w1 where
    x1: "Execute settings cb callExternalAPI v0
        = ((Some (status (api v0 (calls v0))), Some (OperationFailure m0)), cb1, w1)"
    and w1: "trace w1 = trace v0 @ [EvCall]" "calls w1 = Suc (calls v0)"
      "api w1 = api v0" "draws w1 = draws v0" "drawn w1 = drawn v0"
      "requestCount w1 ''success'' = requestCount v0 ''success''"
      "requestCount w1 ''failure'' = requestCount v0 ''failure'' + 1"
    and c1: "state cb1 = StateClosed"
    and k1: "ConsecutiveFailures (counts cb1) = ConsecutiveFailures (counts cb) + 1
          \<or> ConsecutiveFailures (counts cb1) = 1"
    by (elim exE conjE)
  have l1: "ConsecutiveFailures (counts cb1) < 3"
    using k1 word_lt2[OF l] word_1_lt3 by auto
  define d0 where "d0 = fst (exponentialBackoff (int 0) w1)"
  define w2 where "w2 = Sleep d0 (w1\<lparr>drawn := drawn w1 + 1\<rparr>)"
  have r1: "retry 0 (None, None) cb w
      = retry (Suc 0) (Some (status (api w (calls w))), Some (OperationFailure m0)) cb1 w2"
    using retry_failure[OF a(1) x1[unfolded v0_def]] by (simp add: w2_def d0_def)
  have d0: "d0 = fst (exponentialBackoff 0 w)"
    unfolding d0_def using exponentialBackoff_fst_cong[of w1 w 0] by (simp add: w1 v0_def)
  have w2: "trace w2 = trace w @ [EvExecute, EvCall, EvSleep d0]" "calls w2 = Suc (calls w)"
    "api w2 = api w" "draws w2 = draws w" "drawn w2 = drawn w + 1"
    "requestCount w2 ''success'' = requestCount w ''success''"
    "requestCount w2 ''failure'' = requestCount w ''failure'' + 1"
    by (simp_all add: w2_def Sleep_def w1 v0_def)
  \<comment> \<open>second round\<close>
  define v1 where "v1 = w2\<lparr>trace := trace w2 @ [EvExecute]\<rparr>"
  have m1': "failure (api v1 (calls v1)) = Some m1" by (simp add: v1_def w2 m(2))
  from closed_failure_keep[OF c1 m1' l1] obtain cb2 w3 where
    x2: "Execute settings cb1 callExternalAPI v1
        = ((Some (status (api v1 (calls v1))), Some (OperationFailure m1)), cb2, w3)"
    and w3: "trace w3 = trace v1 @ [EvCall]" "calls w3 = Suc (calls v1)"
      "api w3 = api v1" "draws w3 = draws v1" "drawn w3 = drawn v1"
      "requestCount w3 ''success'' = requestCount v1 ''success''"
      "requestCount w3 ''failure'' = requestCount v1 ''failure'' + 1"
    and c2: "state cb2 = StateClosed"
    and "ConsecutiveFailures (counts cb2) = ConsecutiveFailures (counts cb1) + 1
          \<or> ConsecutiveFailures (counts cb2) = 1"
    by (elim exE conjE)
  define d1 where "d1 = fst (exponentialBackoff (int (Suc 0)) w3)"
  define w4 where "w4 = Sleep d1 (w3\<lparr>drawn := drawn w3 + 1\<rparr>)"
  have r2: "retry (Suc 0) (Some (status (api w (calls w))), Some (OperationFailure m0)) cb1 w2
      = retry (Suc (Suc 0)) (Some (status (api w2 (calls w2))), Some (OperationFailure m1)) cb2 w4"
    using retry_failure[OF a(2) x2[unfolded v1_def]] by (simp add: w4_def d1_def)
  have d1: "d1 = fst (exponentialBackoff 1 (w\<lparr>drawn := drawn w + 1\<rparr>))"
    unfolding d1_def
    using exponentialBackoff_fst_cong[of w3 "w\<lparr>drawn := drawn w + 1\<rparr>" 1]
    by (simp add: w3 v1_def w2)
  have w4: "trace w4 = trace w @ [EvExecute, EvCall, EvSleep d0, EvExecute, EvCall, EvSleep d1]"
    "calls w4 = Suc (Suc (calls w))" "api w4 = api w"
    "requestCount w4 ''success'' = requestCount w ''success''"
    "requestCount w4 ''failure'' = requestCount w ''failure'' + 2"
    by (simp_all add: w4_def Sleep_def w3 v1_def w2)
  \<comment> \<open>third round\<close>
  define v2 where "v2 = w4\<lparr>trace := trace w4 @ [EvExecute]\<rparr>"
  have m2': "failure (api v2 (calls v2)) = None" by (simp add: v2_def w4 m(3))
  from Execute_closed_success[OF c2 m2'] obtain cb3 where
    x3: "Execute settings cb2 callExternalAPI v2
        = ((Some (status (api v2 (calls v2))), None), cb3, snd (callExternalAPI v2))"
    and c3: "state cb3 = StateClosed"
    by (elim exE conjE)
  define w5 where "w5 = Inc ''success'' (snd (callExternalAPI v2))"
  have r3: "retry (Suc (Suc 0)) (Some (status (api w2 (calls w2))), Some (OperationFailure m1)) cb2 w4
      = ((Some (status (api w4 (calls w4))), None), cb3, w5)"
    using retry_success[OF a(3) x3[unfolded v2_def]] by (simp add: w5_def v2_def)
  have st: "status (api w4 (calls w4)) = status (api w (calls w + 2))"
    by (simp add: w4)
  have w5: "trace w5 = trace w @ [EvExecute, EvCall, EvSleep d0, EvExecute, EvCall, EvSleep d1,
        EvExecute, EvCall]"
    "calls w5 = calls w + 3"
    "requestCount w5 ''success'' = requestCount w ''success'' + 1"
    "requestCount w5 ''failure'' = requestCount w ''failure'' + 2"
    by (simp_all add: w5_def Inc_def callExternalAPI_eq v2_def w4)
  have R: "retry 0 (None, None) cb w = ((Some (status (api w (calls w + 2))), None), cb3, w5)"
    by (simp only: r1 r2 r3 st)
  have H: "apiHandler cb w
      = ([Write (''Request succeeded: '' @ fmt_v (Some (status (api w (calls w + 2)))))], cb3, w5)"
    by (simp add: apiHandler_def R)
  show ?thesis
    by (simp add: R H w5 c3 d0 d1)
qed

theorem succeeds_on_third_attempt_witness:
  "state (NewCircuitBreaker settings (world0 flaky)) = StateClosed
   \<and> ConsecutiveFailures (counts (NewCircuitBreaker settings (world0 flaky))) < 2
   \<and> failure (api (world0 flaky) (calls (world0 flaky))) \<noteq> None
   \<and> failure (api (world0 flaky) (calls (world0 flaky) + 1)) \<noteq> None
   \<and> failure (api (world0 flaky) (calls (world0 flaky) + 2)) = None
   \<and> fst (retry 0 (None, None) (NewCircuitBreaker settings (world0 flaky)) (world0 flaky))
       = (Some 200, None)
   \<and> trace (snd (snd (apiHandler (NewCircuitBreaker settings (world0 flaky)) (world0 flaky))))
       = [EvExecute, EvCall, EvSleep 500000000, EvExecute, EvCall, EvSleep 1000000000,
          EvExecute, EvCall]
   \<and> fst (apiHandler (NewCircuitBreaker settings (world0 flaky)) (world0 flaky))
       = [Write ''Request succeeded: 200'']
   \<and> calls (snd (snd (apiHandler (NewCircuitBreaker settings (world0 flaky)) (world0 flaky)))) = 3"
proof -
  let ?cb = "NewCircuitBreaker settings (world0 flaky)" and ?w = "world0 flaky"
  have h1: "state ?cb = StateClosed" and h2: "ConsecutiveFailures (counts ?cb) < 2"
    by (simp_all add: NewCircuitBreaker_def clear_def)
  have h3: "failure (api ?w (calls ?w)) \<noteq> None" and h4: "failure (api ?w (calls ?w + 1)) \<noteq> None"
    and h5: "failure (api ?w (calls ?w + 2)) = None"
    by (simp_all add: world0_def flaky_def)
  have d0: "fst (exponentialBackoff 0 ?w) = 500000000"
    and d1: "fst (exponentialBackoff 1 (?w\<lparr>drawn := drawn ?w + 1\<rparr>)) = 1000000000"
    by (simp_all add: exponentialBackoff_mid world0_def Second_def)
  have s: "status (api ?w (calls ?w + 2)) = 200" by (simp add: world0_def flaky_def)
  have t: "trace ?w = []" and k: "calls ?w = 0" by (simp_all add: world0_def)
  have dg: "fmt_v (Some 200) = ''200''" by code_simp
  note T = succeeds_on_third_attempt[OF h1 h2 h3 h4 h5]
  from T have "fst (retry 0 (None, None) ?cb ?w) = (Some (status (api ?w (calls ?w + 2))), None)"
    by (elim conjE)
  then have c1: "fst (retry 0 (None, None) ?cb ?w) = (Some 200, None)" by (simp only: s)
  from T have "trace (snd (snd (apiHandler ?cb ?w)))
        = trace ?w @ [EvExecute, EvCall, EvSleep (fst (exponentialBackoff 0 ?w)),
                     EvExecute, EvCall,
                     EvSleep (fst (exponentialBackoff 1 (?w\<lparr>drawn := drawn ?w + 1\<rparr>))),
                     EvExecute, EvCall]"
    by (elim conjE)
  then have c2: "trace (snd (snd (apiHandler ?cb ?w)))
       = [EvExecute, EvCall, EvSleep 500000000, EvExecute, EvCall, EvSleep 1000000000,
          EvExecute, EvCall]"
    by (simp only: d0 d1 t append_Nil)
  from T have "fst (apiHandler ?cb ?w)
        = [Write (''Request succeeded: '' @ fmt_v (Some (status (api ?w (calls ?w + 2)))))]"
    by (elim conjE)
  then have "fst (apiHandler ?cb ?w) = [Write (''Request succeeded: '' @ ''200'')]"
    by (simp only: s dg)
  then have c3: "fst (apiHandler ?cb ?w) = [Write ''Request succeeded: 200'']"
    by simp
  from T have "calls (snd (snd (apiHandler ?cb ?w))) = calls ?w + 3" by (elim conjE)
  then have c4: "calls (snd (snd (apiHandler ?cb ?w))) = 3" by (simp add: k)
  from h1 h2 h3 h4 h5 c1 c2 c3 c4 show ?thesis by (intro conjI)
qed

section \<open>The counters of outcomes\<close>




end
